theory Spec2Isabelle
  imports Main "HOL-Library.Sublist"
begin

section \<open>Strings and the two regular expressions\<close>

text \<open>
  URLs are JavaScript strings; they are modelled as \<open>string\<close>, one \<open>char\<close> per code unit
  (code units below 256). The two classifiers are regular-expression tests with the
  \<open>i\<close> flag and without \<open>g\<close> or \<open>y\<close>: \<open>RegExp.prototype.test\<close> then tries every start
  index from 0 to the length of the input, and a character of the input matches a
  character of the pattern when both have the same canonical form (the upper-case
  letter). A code unit outside ASCII is never canonicalised to an ASCII one, so for
  the ASCII patterns of this program only the letters \<open>a\<close> to \<open>z\<close> matter.
\<close>

definition canonicalize :: "char \<Rightarrow> char" where
  "canonicalize c =
     (let n = (of_char c :: nat) in if 97 \<le> n \<and> n \<le> 122 then char_of (n - 32) else c)"

text \<open>
  The fragment of the regular-expression language the source uses: a literal string, a
  sequence, an alternative \<open>(a|b)\<close> and the assertion \<open>$\<close> (end of input, as the \<open>m\<close> flag
  is absent).
\<close>

datatype regex = Lit string | Seq regex regex | Alt regex regex | Eos

text \<open>
  \<open>rmatch r s\<close> matches \<open>r\<close> at the start of \<open>s\<close> and lists, in backtracking order, what
  is left of \<open>s\<close> after each way of matching.
\<close>

fun rmatch :: "regex \<Rightarrow> string \<Rightarrow> string list" where
  "rmatch (Lit p) s =
     (if length p \<le> length s \<and> map canonicalize (take (length p) s) = map canonicalize p
      then [drop (length p) s] else [])"
| "rmatch (Seq a b) s = concat (map (rmatch b) (rmatch a s))"
| "rmatch (Alt a b) s = rmatch a s @ rmatch b s"
| "rmatch Eos s = (if s = [] then [[]] else [])"

fun regex_test :: "regex \<Rightarrow> string \<Rightarrow> bool" where
  "regex_test r [] = (rmatch r [] \<noteq> [])"
| "regex_test r (x # xs) = (rmatch r (x # xs) \<noteq> [] \<or> regex_test r xs)"

section \<open>URL classifier and resource policy\<close>

text \<open>\<^verbatim>\<open>function isM3U8(url) { return /\.m3u8(\?|$)/i.test(url); }\<close>\<close>

definition isM3U8 :: "string \<Rightarrow> bool" where
  "isM3U8 u = regex_test (Seq (Lit ''.m3u8'') (Alt (Lit ''?'') Eos)) u"

text \<open>\<^verbatim>\<open>function isSubtitle(url) { return /\.(vtt|srt)(\?|$)/i.test(url); }\<close>\<close>

definition isSubtitle :: "string \<Rightarrow> bool" where
  "isSubtitle u =
     regex_test (Seq (Lit ''.'') (Seq (Alt (Lit ''vtt'') (Lit ''srt'')) (Alt (Lit ''?'') Eos))) u"

definition isHeavyResource :: "string \<Rightarrow> bool" where
  "isHeavyResource ty = (ty \<in> set [''image'', ''stylesheet'', ''font'', ''media''])"

text \<open>
  The specification's wording of the classifiers, for comparison with the code: the
  part of the string before its first \<open>?\<close> (the path, the query string ignored) ends with
  the extension, compared case-insensitively.
\<close>

definition ends_with_ci :: "string \<Rightarrow> string \<Rightarrow> bool" where
  "ends_with_ci ext s =
     (length ext \<le> length s \<and>
      map canonicalize (drop (length s - length ext) s) = map canonicalize ext)"

definition before_query :: "string \<Rightarrow> string" where
  "before_query u = takeWhile (\<lambda>c. c \<noteq> CHR ''?'') u"

definition spec_isManifestURL :: "string \<Rightarrow> bool" where
  "spec_isManifestURL u = ends_with_ci ''.m3u8'' (before_query u)"

definition spec_isSubtitleURL :: "string \<Rightarrow> bool" where
  "spec_isSubtitleURL u =
     (ends_with_ci ''.vtt'' (before_query u) \<or> ends_with_ci ''.srt'' (before_query u))"

section \<open>The browser as seen by one scrape call\<close>

text \<open>
  A \<open>Set<string>\<close> keeps its elements in insertion order and \<open>Array.from\<close> lists them in
  that order: it is a duplicate-free list, and \<open>add\<close> appends an element that is new.
\<close>

definition set_add :: "string \<Rightarrow> string list \<Rightarrow> string list" where
  "set_add x xs = (if x \<in> set xs then xs else xs @ [x])"

text \<open>
  Network events reach the two handlers of \<open>attachNetworkCollectors\<close>. A request carries
  its URL, its resource type and the error with which \<open>abort()\<close> or \<open>continue()\<close> would
  reject, if any. A response carries what \<open>res.url()\<close> and \<open>res.request().url()\<close> return;
  \<open>None\<close> stands for an accessor that throws.
\<close>

datatype net_event =
    Request string string "string option"
  | Response "string option" "string option"

text \<open>
  An element of a document, as far as the injected subtitle script reads it: its tag
  name and attribute names in lower case, and the value of its \<open>src\<close> property (the
  address the browser resolved the attribute to).
\<close>

record element =
  tagName :: string
  attributes :: "(string \<times> string) list"
  src :: string

text \<open>
  Each awaited call of the driver is answered by the browser with a \<open>reply\<close>: the
  network events delivered while the caller was suspended, the time that passed beyond
  the requested one, the error of a rejected promise, whether a selector lookup found
  an element, and the documents of the page's frames at that moment, the main frame's
  apart from those of the nested frames. A \<open>world\<close> gives the reply to the \<open>k\<close>-th
  suspension of a call; the program is verified for every world.

  \<open>detached\<close> says that the frame a call addresses is detached when the call is made.
  The methods of a frame check this before they do anything else and throw at once:
  no promise is returned, the caller is not suspended, and a \<open>.catch\<close> on the
  promise is never reached. For a call inside a \<open>try\<close> block it makes no difference
  whether it throws or rejects, and \<open>failure\<close> stands for both.
\<close>

record reply =
  traffic :: "net_event list"
  elapsed :: nat
  failure :: "string option"
  found :: bool
  detached :: bool
  main_doc :: "element list"
  child_docs :: "element list list"

type_synonym world = "nat \<Rightarrow> reply"

text \<open>Everything the call does to the outside, and every insertion into the two sets.\<close>

datatype action =
    Launch "string list"
  | NewPage
  | SetViewport nat nat nat
  | SetUserAgent string
  | SetDefaultNavigationTimeout nat
  | SetDefaultTimeout nat
  | SetRequestInterception bool
  | Goto string string nat
  | Delay nat
  | RecordManifest string
  | RecordSubtitle string
  | AbortRequest string
  | ContinueRequest string
  | Frames
  | Query nat string
  | Click nat string nat
  | EvaluateAutoplay nat
  | EvaluateDomSubs
  | CloseBrowser

text \<open>
  The local state of one call: the two sets, whether \<open>browser\<close> is non-null, whether
  the handlers are attached, the number of suspensions so far, the clock in
  milliseconds since the call began (what \<open>Date.now()\<close> reads, taken to be monotone), and
  the trace of actions.
\<close>

record session =
  m3u8Urls :: "string list"
  subUrls :: "string list"
  browser :: bool
  collecting :: bool
  tick :: nat
  now :: nat
  trace :: "action list"

definition log :: "action \<Rightarrow> session \<Rightarrow> session" where
  "log a s = s\<lparr>trace := trace s @ [a]\<rparr>"

section \<open>Traffic collector\<close>

text \<open>
  The pair of statements that each handler runs on a URL:
  \<^verbatim>\<open>if (isM3U8(url)) m3u8.add(url); if (isSubtitle(url)) subs.add(url);\<close>
\<close>

definition classify :: "string \<Rightarrow> session \<Rightarrow> session" where
  "classify u s =
     (let s1 = (if isM3U8 u then log (RecordManifest u) (s\<lparr>m3u8Urls := set_add u (m3u8Urls s)\<rparr>)
                else s)
      in if isSubtitle u then log (RecordSubtitle u) (s1\<lparr>subUrls := set_add u (subUrls s1)\<rparr>)
         else s1)"

text \<open>
  The request handler. A rejection of \<open>abort()\<close> or \<open>continue()\<close> is caught by
  \<open>.catch(() => {})\<close>.
\<close>

definition on_request :: "string \<Rightarrow> string \<Rightarrow> string option \<Rightarrow> session \<Rightarrow> session" where
  "on_request u ty rejection s =
     (let s1 = classify u s
      in if isHeavyResource ty
         then (case rejection of None \<Rightarrow> log (AbortRequest u) s1
                               | Some e \<Rightarrow> log (AbortRequest u) s1)
         else (case rejection of None \<Rightarrow> log (ContinueRequest u) s1
                               | Some e \<Rightarrow> log (ContinueRequest u) s1))"

text \<open>The response handler; its body is inside \<open>try { ... } catch {}\<close>.\<close>

definition on_response :: "string option \<Rightarrow> string option \<Rightarrow> session \<Rightarrow> session" where
  "on_response res_url req_url s =
     (case res_url of
        None \<Rightarrow> s
      | Some u \<Rightarrow>
          (let s1 = classify u s
           in case req_url of None \<Rightarrow> s1 | Some reqUrl \<Rightarrow> classify reqUrl s1))"

fun handle :: "net_event \<Rightarrow> session \<Rightarrow> session" where
  "handle (Request u ty rejection) s = on_request u ty rejection s"
| "handle (Response res_url req_url) s = on_response res_url req_url s"

text \<open>Events that arrive before the handlers are attached are seen by nobody.\<close>

definition deliver :: "net_event list \<Rightarrow> session \<Rightarrow> session" where
  "deliver evs s = (if collecting s then fold handle evs s else s)"

definition attachNetworkCollectors :: "session \<Rightarrow> session" where
  "attachNetworkCollectors s = s\<lparr>collecting := True\<rparr>"

section \<open>Suspension points\<close>

text \<open>
  \<open>await\<close> of a driver call: the call is made, the events of the reply are handled while
  the caller is suspended, and the clock advances by at least \<open>ms\<close>.
\<close>

definition await :: "world \<Rightarrow> action \<Rightarrow> nat \<Rightarrow> session \<Rightarrow> reply \<times> session" where
  "await w a ms s =
     (let r = w (tick s);
          s1 = deliver (traffic r) (log a s)
      in (r, s1\<lparr>tick := tick s + 1, now := now s + ms + elapsed r\<rparr>))"

text \<open>A computation that returns a value or throws, and changes the session.\<close>

type_synonym 'a prog = "session \<Rightarrow> (string + 'a) \<times> session"

definition ret :: "'a \<Rightarrow> 'a prog" where
  "ret x s = (Inr x, s)"

definition bnd :: "'a prog \<Rightarrow> ('a \<Rightarrow> 'b prog) \<Rightarrow> 'b prog" where
  "bnd m f s = (case m s of (Inl e, s') \<Rightarrow> (Inl e, s') | (Inr x, s') \<Rightarrow> f x s')"

definition run :: "(session \<Rightarrow> session) \<Rightarrow> unit prog" where
  "run f s = (Inr (), f s)"

definition call :: "world \<Rightarrow> action \<Rightarrow> unit prog" where
  "call w a s =
     (case await w a 0 s of
        (r, s') \<Rightarrow> (case failure r of None \<Rightarrow> (Inr (), s') | Some e \<Rightarrow> (Inl e, s')))"

text \<open>\<^verbatim>\<open>const delay = (ms) => new Promise((res) => setTimeout(res, ms));\<close>\<close>

definition delay :: "world \<Rightarrow> nat \<Rightarrow> session \<Rightarrow> session" where
  "delay w ms s = snd (await w (Delay ms) ms s)"

section \<open>Session bootstrap\<close>

definition userAgent :: string where
  "userAgent = ''Mozilla/5.0 (Windows NT 10.0; Win64; x64) AppleWebKit/537.36 (KHTML, like Gecko) Chrome/124.0.0.0 Safari/537.36''"

definition createPage :: "world \<Rightarrow> unit prog" where
  "createPage w =
     bnd (call w NewPage) (\<lambda>_.
     bnd (call w (SetViewport 1366 768 1)) (\<lambda>_.
     bnd (call w (SetUserAgent userAgent)) (\<lambda>_.
     bnd (call w (SetDefaultNavigationTimeout 30000)) (\<lambda>_.
     bnd (call w (SetDefaultTimeout 30000)) (\<lambda>_.
     call w (SetRequestInterception True))))))"

section \<open>Interaction engine\<close>

definition detached_frame :: string where
  "detached_frame = ''Attempted to use detached Frame''"

text \<open>
  \<^verbatim>\<open>const el = await frame.$(sel).catch(() => null);\<close> is outside any \<open>try\<close>: when the
  frame is detached, \<open>frame.$(sel)\<close> throws before \<open>.catch\<close> is reached and the error
  leaves \<open>tryClickSelectors\<close>. Otherwise the lookup gives no element when it rejects or
  finds nothing. A click that throws is caught and the next selector is tried.
\<close>

fun tryClickSelectors :: "world \<Rightarrow> nat \<Rightarrow> string list \<Rightarrow> bool prog" where
  "tryClickSelectors w f [] s = (Inr False, s)"
| "tryClickSelectors w f (sel # sels) s =
     (if detached (w (tick s)) then (Inl detached_frame, log (Query f sel) s)
      else
        (case await w (Query f sel) 0 s of
           (r, s1) \<Rightarrow>
             if failure r \<noteq> None \<or> \<not> found r then tryClickSelectors w f sels s1
             else (case await w (Click f sel 50) 0 s1 of
                     (r2, s2) \<Rightarrow>
                       if failure r2 = None then (Inr True, s2)
                       else tryClickSelectors w f sels s2)))"

definition closeSelectors :: "string list" where
  "closeSelectors =
     [''[class*=close]'', ''.vjs-modal-dialog-close-button'', ''.jw-icon-close'',
      ''.x-close,.btn-close'', ''[aria-label*=Close i]'']"

definition tryCloseOverlays :: "world \<Rightarrow> nat \<Rightarrow> unit prog" where
  "tryCloseOverlays w f = bnd (tryClickSelectors w f closeSelectors) (\<lambda>_. ret ())"

text \<open>
  The injected autoplay script runs in the browser. The call is inside \<open>try { } catch { }\<close>:
  the throw of a detached frame and a rejection are both caught.
\<close>

definition tryAutoplay :: "world \<Rightarrow> nat \<Rightarrow> session \<Rightarrow> session" where
  "tryAutoplay w f s =
     (if detached (w (tick s)) then log (EvaluateAutoplay f) s
      else
        (case await w (EvaluateAutoplay f) 0 s of
           (r, s') \<Rightarrow> (case failure r of None \<Rightarrow> s' | Some e \<Rightarrow> s')))"

definition playSelectors :: "string list" where
  "playSelectors =
     [''button[aria-label*=Play i]'', ''.vjs-big-play-button'',
      ''button.jw-icon.jw-icon-display'', ''button[title*=Play i]'', ''[class*=play]'',
      ''button, .btn, [role=button]'']"

definition tryPlay :: "world \<Rightarrow> nat \<Rightarrow> unit prog" where
  "tryPlay w f = bnd (tryClickSelectors w f playSelectors) (\<lambda>_. run (tryAutoplay w f))"

text \<open>
  \<open>page.frames()\<close> is synchronous: it reads the frame tree as it is when the next
  suspension begins. Frame 0 is the main frame. A frame of the list may be detached by
  the time the loop reaches it.
\<close>

definition frames_of :: "reply \<Rightarrow> nat list" where
  "frames_of r = [0 ..< Suc (length (child_docs r))]"

primrec interact_frames :: "world \<Rightarrow> nat list \<Rightarrow> unit prog" where
  "interact_frames w [] = ret ()"
| "interact_frames w (f # fs) =
     bnd (tryCloseOverlays w f) (\<lambda>_.
     bnd (tryPlay w f) (\<lambda>_.
     interact_frames w fs))"

definition tryInteractAllFrames :: "world \<Rightarrow> unit prog" where
  "tryInteractAllFrames w s = interact_frames w (frames_of (w (tick s))) (log Frames s)"

section \<open>Subtitle DOM fallback\<close>

text \<open>
  The script that \<open>scrapeProviderWithSubtitles\<close> injects. \<open>document\<close> lists the elements of
  one document in document order, the order of \<open>querySelectorAll\<close>.
\<close>

definition getAttribute :: "element \<Rightarrow> string \<Rightarrow> string option" where
  "getAttribute el name = map_of (attributes el) name"

definition is_space :: "char \<Rightarrow> bool" where
  "is_space c = ((of_char c :: nat) \<in> set [9, 10, 11, 12, 13, 32, 160])"

definition trim :: "string \<Rightarrow> string" where
  "trim s = rev (dropWhile is_space (rev (dropWhile is_space s)))"

text \<open>\<open>a || b\<close> on an attribute value: \<open>null\<close> and the empty string are falsy.\<close>

definition or_else :: "string option \<Rightarrow> string \<Rightarrow> string" where
  "or_else a b = (case a of None \<Rightarrow> b | Some v \<Rightarrow> if v = [] then b else v)"

definition add_if_nonempty :: "string \<Rightarrow> string list \<Rightarrow> string list" where
  "add_if_nonempty u us = (if u \<noteq> [] then set_add u us else us)"

definition domSubs_script :: "element list \<Rightarrow> string list" where
  "domSubs_script document =
     (let tracks = filter (\<lambda>t. tagName t = ''track'' \<and> getAttribute t ''kind'' = Some ''subtitles''
                               \<and> getAttribute t ''src'' \<noteq> None) document;
          us1 = fold (\<lambda>t us. add_if_nonempty (src t) us) tracks [];
          tagged = filter (\<lambda>el. getAttribute el ''data-track'' \<noteq> None
                               \<or> getAttribute el ''data-subtitle'' \<noteq> None) document
      in fold (\<lambda>el us. add_if_nonempty
                          (trim (or_else (getAttribute el ''data-track'')
                                   (or_else (getAttribute el ''data-subtitle'') [])))
                          us)
              tagged us1)"

text \<open>
  \<open>page.evaluate\<close> runs a script in the main frame of the page, as
  \<open>page.mainFrame().evaluate\<close> does; the call in \<open>scrapeProviderWithSubtitles\<close> is not
  inside any \<open>try\<close> but the outer one, so its rejection is thrown on.
\<close>

definition evaluate_domSubs :: "world \<Rightarrow> (string list) prog" where
  "evaluate_domSubs w s =
     (case await w EvaluateDomSubs 0 s of
        (r, s') \<Rightarrow>
          (case failure r of
             None \<Rightarrow> (Inr (domSubs_script (main_doc r)), s')
           | Some e \<Rightarrow> (Inl e, s')))"

text \<open>\<^verbatim>\<open>domSubs.forEach((u) => subUrls.add(u));\<close>\<close>

definition merge_domSubs :: "string list \<Rightarrow> session \<Rightarrow> session" where
  "merge_domSubs domSubs s = s\<lparr>subUrls := fold set_add domSubs (subUrls s)\<rparr>"

section \<open>Discovery orchestrator\<close>

definition PASSIVE_WAIT_MS :: nat where
  "PASSIVE_WAIT_MS = 6000"

definition CLICK_WAIT_MS :: nat where
  "CLICK_WAIT_MS = 8000"

text \<open>
  The launch flags of the TypeScript source. The compiled \<open>dist/scraper.js\<close> gives
  \<open>scrapeProvider\<close> two more flags and an executable path; nothing below depends on them.
\<close>

definition launchArgs :: "string list" where
  "launchArgs =
     [''--no-sandbox'', ''--disable-setuid-sandbox'',
      ''--autoplay-policy=no-user-gesture-required'', ''--mute-audio'',
      ''--ignore-certificate-errors'', ''--allow-running-insecure-content'']"

definition initial :: session where
  "initial = \<lparr>m3u8Urls = [], subUrls = [], browser = False, collecting = False,
              tick = 0, now = 0, trace = []\<rparr>"

text \<open>
  The statements with which the \<open>try\<close> block of both entry points begins: launch, page
  creation, attachment of the collectors, navigation, passive wait.
\<close>

definition open_page :: "world \<Rightarrow> string \<Rightarrow> unit prog" where
  "open_page w targetUrl =
     bnd (call w (Launch launchArgs)) (\<lambda>_.
     bnd (run (\<lambda>s. s\<lparr>browser := True\<rparr>)) (\<lambda>_.
     bnd (createPage w) (\<lambda>_.
     bnd (run attachNetworkCollectors) (\<lambda>_.
     bnd (call w (Goto targetUrl ''domcontentloaded'' 30000)) (\<lambda>_.
     run (delay w PASSIVE_WAIT_MS))))))"

text \<open>
  \<^verbatim>\<open>const start = Date.now();
  while (Date.now() - start < 5000) { if (m3u8Urls.size > 0) break; await delay(250); }\<close>
\<close>

function poll :: "world \<Rightarrow> nat \<Rightarrow> session \<Rightarrow> session" where
  "poll w start s =
     (if now s - start < 5000
      then (if length (m3u8Urls s) > 0 then s else poll w start (delay w 250 s))
      else s)"
  by pat_completeness auto
termination
  by (relation "measure (\<lambda>(w, start, s). start + 5000 - now s)")
     (auto simp: delay_def await_def Let_def)

declare poll.simps [simp del]

definition poll_from_now :: "world \<Rightarrow> session \<Rightarrow> session" where
  "poll_from_now w s = poll w (now s) s"

text \<open>
  \<open>finally { try { await browser?.close(); } catch {} }\<close>: nothing is called when
  \<open>browser\<close> is still null, and a rejection of \<open>close()\<close> is caught.
\<close>

definition close_browser :: "world \<Rightarrow> session \<Rightarrow> session" where
  "close_browser w s =
     (if browser s
      then (case await w CloseBrowser 0 s of
              (r, s') \<Rightarrow> (case failure r of None \<Rightarrow> s' | Some e \<Rightarrow> s'))
      else s)"

text \<open>
  A \<open>finally\<close> block that completes normally leaves the completion of the \<open>try\<close> block,
  a returned value or a thrown error, as it is.
\<close>

definition try_finally :: "'a prog \<Rightarrow> (session \<Rightarrow> session) \<Rightarrow> 'a prog" where
  "try_finally body fin s = (case body s of (r, s') \<Rightarrow> (r, fin s'))"

definition scrapeProvider_try :: "world \<Rightarrow> string \<Rightarrow> (string list) prog" where
  "scrapeProvider_try w targetUrl =
     bnd (open_page w targetUrl) (\<lambda>_ s1.
       if length (m3u8Urls s1) > 0 then ret (m3u8Urls s1) s1
       else
         bnd (tryInteractAllFrames w) (\<lambda>_.
         bnd (run (delay w CLICK_WAIT_MS)) (\<lambda>_ s2.
           if length (m3u8Urls s2) > 0 then ret (m3u8Urls s2) s2
           else
             bnd (tryInteractAllFrames w) (\<lambda>_.
             bnd (run (poll_from_now w)) (\<lambda>_ s3.
               ret (m3u8Urls s3) s3)) s2)) s1)"

definition scrapeProvider :: "world \<Rightarrow> string \<Rightarrow> (string + string list) \<times> session" where
  "scrapeProvider w targetUrl =
     try_finally (scrapeProvider_try w targetUrl) (close_browser w) initial"

record Subtitle =
  url :: string
  label :: "string option"
  lang :: "string option"

record result =
  urls :: "string list"
  subtitles :: "Subtitle list"

definition scrapeProviderWithSubtitles_try :: "world \<Rightarrow> string \<Rightarrow> result prog" where
  "scrapeProviderWithSubtitles_try w targetUrl =
     bnd (open_page w targetUrl) (\<lambda>_.
     bnd (evaluate_domSubs w) (\<lambda>domSubs.
     bnd (run (merge_domSubs domSubs)) (\<lambda>_.
     bnd (\<lambda>s. if length (m3u8Urls s) = 0
              then bnd (tryInteractAllFrames w) (\<lambda>_. run (delay w CLICK_WAIT_MS)) s
              else ret () s) (\<lambda>_.
     bnd (\<lambda>s. if length (m3u8Urls s) = 0
              then bnd (tryInteractAllFrames w) (\<lambda>_. run (poll_from_now w)) s
              else ret () s) (\<lambda>_ s.
       ret \<lparr>urls = m3u8Urls s,
            subtitles = map (\<lambda>u. \<lparr>url = u, label = None, lang = None\<rparr>) (subUrls s)\<rparr> s)))))"

definition scrapeProviderWithSubtitles :: "world \<Rightarrow> string \<Rightarrow> (string + result) \<times> session" where
  "scrapeProviderWithSubtitles w targetUrl =
     try_finally (scrapeProviderWithSubtitles_try w targetUrl) (close_browser w) initial"

text \<open>
  The two statements that follow the subtitle fallback in \<open>scrapeProviderWithSubtitles\<close>,
  as one computation: a first round of interaction and the wait after it, then a second
  round and the poll, each only while no manifest has been seen.
\<close>

definition interact_and_poll :: "world \<Rightarrow> unit prog" where
  "interact_and_poll w =
     bnd (\<lambda>s. if length (m3u8Urls s) = 0
              then bnd (tryInteractAllFrames w) (\<lambda>_. run (delay w CLICK_WAIT_MS)) s
              else ret () s) (\<lambda>_ s.
          if length (m3u8Urls s) = 0
          then bnd (tryInteractAllFrames w) (\<lambda>_. run (poll_from_now w)) s
          else ret () s)"

section \<open>Notions used in the statements\<close>

text \<open>
  The actions of the two handlers, and the actions of the interaction engine.
\<close>

fun is_collector :: "action \<Rightarrow> bool" where
  "is_collector (RecordManifest u) = True"
| "is_collector (RecordSubtitle u) = True"
| "is_collector (AbortRequest u) = True"
| "is_collector (ContinueRequest u) = True"
| "is_collector a = False"

fun is_interaction :: "action \<Rightarrow> bool" where
  "is_interaction Frames = True"
| "is_interaction (Query f sel) = True"
| "is_interaction (Click f sel d) = True"
| "is_interaction (EvaluateAutoplay f) = True"
| "is_interaction a = False"

text \<open>
  The addresses an event shows to its handler, and the addresses that appear on the
  wire at some suspension of a call.
\<close>

fun event_urls :: "net_event \<Rightarrow> string list" where
  "event_urls (Request u ty rejection) = [u]"
| "event_urls (Response res_url req_url) =
     (case res_url of None \<Rightarrow> [] | Some u \<Rightarrow> [u]) @ (case req_url of None \<Rightarrow> [] | Some u \<Rightarrow> [u])"

definition wire :: "world \<Rightarrow> string set" where
  "wire w = {u. \<exists>k. \<exists>ev \<in> set (traffic (w k)). u \<in> set (event_urls ev)}"

text \<open>
  \<open>grows s s'\<close>: both sets of \<open>s'\<close> begin with those of \<open>s\<close>, in the same order. \<open>evolves\<close>
  adds where new entries may come from (the wire, or a set \<open>D\<close> of addresses read from
  the document), which actions may have been appended to the trace, and that the call
  keeps its browser and its handlers and that ticks and clock do not go back.
\<close>

definition grows :: "session \<Rightarrow> session \<Rightarrow> bool" where
  "grows s s' \<longleftrightarrow> prefix (m3u8Urls s) (m3u8Urls s') \<and> prefix (subUrls s) (subUrls s')"

definition evolves :: "world \<Rightarrow> string set \<Rightarrow> (action \<Rightarrow> bool) \<Rightarrow> session \<Rightarrow> session \<Rightarrow> bool" where
  "evolves w D P s s' \<longleftrightarrow>
     grows s s' \<and>
     set (m3u8Urls s') \<subseteq> set (m3u8Urls s) \<union> {u \<in> wire w. isM3U8 u} \<and>
     set (subUrls s') \<subseteq> set (subUrls s) \<union> {u \<in> wire w. isSubtitle u} \<union> D \<and>
     (\<exists>xs. trace s' = trace s @ xs \<and> (\<forall>a \<in> set xs. is_collector a \<or> P a)) \<and>
     (browser s \<longrightarrow> browser s') \<and> (collecting s \<longrightarrow> collecting s') \<and>
     tick s \<le> tick s' \<and> now s \<le> now s'"

section \<open>Example pages\<close>

text \<open>
  The reply of a browser in which nothing happens; a page whose manifest is requested
  while it loads; a page that cannot be reached within the navigation timeout; a page
  that navigates away while the subtitle script is evaluated; a page without a manifest
  on which every lookup finds an element and every click succeeds, and whose nested frame
  is removed during the first interaction round, while the main frame is dealt with; a
  page without a manifest that requests its document, an image and a subtitle file at
  every suspension, has a nested frame and lets every click succeed; and a page with a
  subtitle track in its main document and another one inside a nested frame.
\<close>

definition idle :: reply where
  "idle = \<lparr>traffic = [], elapsed = 0, failure = None, found = False, detached = False,
            main_doc = [], child_docs = []\<rparr>"

definition manifest_on_load :: world where
  "manifest_on_load k =
     (if k = 7 then idle\<lparr>traffic := [Request ''http://x/v.m3u8'' ''media'' None]\<rparr> else idle)"

definition navigation_timeout :: world where
  "navigation_timeout k =
     (if k = 7 then idle\<lparr>failure := Some ''Navigation timeout of 30000 ms exceeded''\<rparr> else idle)"

definition context_destroyed :: world where
  "context_destroyed k =
     (if k = 7 then idle\<lparr>traffic := [Response (Some ''http://x/v.m3u8'') (Some ''http://x/v.m3u8'')]\<rparr>
      else if k = 9 then idle\<lparr>failure := Some ''Execution context was destroyed''\<rparr>
      else idle)"

definition frame_detached :: world where
  "frame_detached k =
     (if k = 7 then idle\<lparr>traffic := [Request ''http://x/'' ''document'' None,
                                    Request ''http://x/logo.png'' ''image'' None]\<rparr>
      else if k = 14 then idle\<lparr>detached := True\<rparr>
      else idle\<lparr>found := True, child_docs := [[]]\<rparr>)"

definition busy_page :: world where
  "busy_page k =
     idle\<lparr>traffic := [Request ''http://x/'' ''document'' None,
                       Request ''http://x/logo.png'' ''image'' None,
                       Response (Some ''http://x/en.vtt'') (Some ''http://x/en.vtt'')],
          elapsed := 3, found := True, child_docs := [[]]\<rparr>"

definition track :: "string \<Rightarrow> element" where
  "track u = \<lparr>tagName = ''track'', attributes = [(''kind'', ''subtitles''), (''src'', u)], src = u\<rparr>"

definition iframe_track :: world where
  "iframe_track k =
     (if k = 7 then idle\<lparr>traffic := [Response (Some ''http://x/v.m3u8'') (Some ''http://x/v.m3u8'')]\<rparr>
      else idle\<lparr>main_doc := [track ''http://x/main.vtt''],
                child_docs := [[track ''http://x/frame.vtt'']]\<rparr>)"

section \<open>What the classifiers accept\<close>

lemma canonicalize_question: "canonicalize c = CHR ''?'' \<longleftrightarrow> c = CHR ''?''"
proof
  assume h: "canonicalize c = CHR ''?''"
  show "c = CHR ''?''"
  proof (cases "97 \<le> (of_char c :: nat) \<and> (of_char c :: nat) \<le> 122")
    case True
    define n where "n = (of_char c :: nat)"
    from True have n: "97 \<le> n" "n \<le> 122" by (simp_all add: n_def)
    have "canonicalize c = char_of (n - 32)"
      using True by (simp add: canonicalize_def Let_def n_def)
    then have "(of_char (canonicalize c) :: nat) = (n - 32) mod 256"
      by simp
    moreover from n have "(n - 32) mod 256 = n - 32" by simp
    ultimately have "(of_char (canonicalize c) :: nat) = n - 32" by simp
    with h have "n - 32 = 63" by simp
    with n show ?thesis by simp
  next
    case False
    with h show ?thesis by (simp add: canonicalize_def Let_def)
  qed
next
  assume "c = CHR ''?''"
  then show "canonicalize c = CHR ''?''" by (simp add: canonicalize_def)
qed

lemma regex_test_iff: "regex_test r u \<longleftrightarrow> (\<exists>p q. u = p @ q \<and> rmatch r q \<noteq> [])"
proof (induction u)
  case Nil
  then show ?case by simp
next
  case (Cons x xs)
  show ?case
  proof
    assume "regex_test r (x # xs)"
    then consider "rmatch r (x # xs) \<noteq> []" | "regex_test r xs" by auto
    then show "\<exists>p q. x # xs = p @ q \<and> rmatch r q \<noteq> []"
    proof cases
      case 1
      then have "x # xs = [] @ (x # xs) \<and> rmatch r (x # xs) \<noteq> []" by simp
      then show ?thesis by blast
    next
      case 2
      with Cons.IH obtain p q where "xs = p @ q" "rmatch r q \<noteq> []" by blast
      then have "x # xs = (x # p) @ q \<and> rmatch r q \<noteq> []" by simp
      then show ?thesis by blast
    qed
  next
    assume "\<exists>p q. x # xs = p @ q \<and> rmatch r q \<noteq> []"
    then obtain p q where pq: "x # xs = p @ q" "rmatch r q \<noteq> []" by blast
    show "regex_test r (x # xs)"
    proof (cases p)
      case Nil
      with pq have "rmatch r (x # xs) \<noteq> []" by simp
      then show ?thesis by simp
    next
      case (Cons y ys)
      with pq have "xs = ys @ q" by simp
      with pq(2) Cons.IH show ?thesis by auto
    qed
  qed
qed

lemma rmatch_Seq_Lit:
  "rmatch (Seq (Lit p) b) s \<noteq> [] \<longleftrightarrow>
   (\<exists>m t. s = m @ t \<and> map canonicalize m = map canonicalize p \<and> rmatch b t \<noteq> [])"
proof
  assume h: "rmatch (Seq (Lit p) b) s \<noteq> []"
  then have c: "length p \<le> length s" "map canonicalize (take (length p) s) = map canonicalize p"
    by (auto split: if_splits)
  with h have "rmatch b (drop (length p) s) \<noteq> []" by simp
  with c have "s = take (length p) s @ drop (length p) s \<and>
               map canonicalize (take (length p) s) = map canonicalize p \<and>
               rmatch b (drop (length p) s) \<noteq> []" by simp
  then show "\<exists>m t. s = m @ t \<and> map canonicalize m = map canonicalize p \<and> rmatch b t \<noteq> []"
    by blast
next
  assume "\<exists>m t. s = m @ t \<and> map canonicalize m = map canonicalize p \<and> rmatch b t \<noteq> []"
  then obtain m t where mt: "s = m @ t" "map canonicalize m = map canonicalize p" "rmatch b t \<noteq> []"
    by blast
  from mt(2) have "length m = length p" by (rule map_eq_imp_length_eq)
  with mt show "rmatch (Seq (Lit p) b) s \<noteq> []" by simp
qed

lemma rmatch_tail:
  "rmatch (Alt (Lit ''?'') Eos) t \<noteq> [] \<longleftrightarrow> (t = [] \<or> (\<exists>t'. t = CHR ''?'' # t'))"
proof (cases t)
  case Nil
  then show ?thesis by simp
next
  case (Cons c cs)
  have q: "canonicalize CHR ''?'' = CHR ''?''" by (simp add: canonicalize_question)
  from Cons show ?thesis by (simp add: q canonicalize_question)
qed

lemma isM3U8_iff:
  "isM3U8 u \<longleftrightarrow>
   (\<exists>p m t. u = p @ m @ t \<and> map canonicalize m = map canonicalize ''.m3u8'' \<and>
            (t = [] \<or> (\<exists>t'. t = CHR ''?'' # t')))"
  unfolding isM3U8_def regex_test_iff rmatch_Seq_Lit rmatch_tail by blast

lemma rmatch_Alt_Lit_Seq:
  "rmatch (Seq (Alt (Lit p1) (Lit p2)) b) s \<noteq> [] \<longleftrightarrow>
   (rmatch (Seq (Lit p1) b) s \<noteq> [] \<or> rmatch (Seq (Lit p2) b) s \<noteq> [])"
  by auto

lemma ci_split:
  "(\<exists>d m. x = d @ m \<and> map canonicalize d = map canonicalize [a] \<and> map canonicalize m = map canonicalize e)
   \<longleftrightarrow> map canonicalize x = map canonicalize (a # e)"
proof
  assume "\<exists>d m. x = d @ m \<and> map canonicalize d = map canonicalize [a] \<and> map canonicalize m = map canonicalize e"
  then show "map canonicalize x = map canonicalize (a # e)" by auto
next
  assume h: "map canonicalize x = map canonicalize (a # e)"
  then obtain y ys where x: "x = y # ys" by (cases x) auto
  with h have "x = [y] @ ys \<and> map canonicalize [y] = map canonicalize [a] \<and> map canonicalize ys = map canonicalize e"
    by simp
  then show "\<exists>d m. x = d @ m \<and> map canonicalize d = map canonicalize [a] \<and> map canonicalize m = map canonicalize e"
    by blast
qed

lemma rmatch_ext_tail:
  "rmatch (Seq (Lit e) (Alt (Lit ''?'') Eos)) q \<noteq> [] \<longleftrightarrow>
   (\<exists>m t. q = m @ t \<and> map canonicalize m = map canonicalize e \<and>
          (t = [] \<or> (\<exists>t'. t = CHR ''?'' # t')))"
  unfolding rmatch_Seq_Lit rmatch_tail ..

lemma rmatch_dot_ext:
  "(\<exists>d r. q = d @ r \<and> map canonicalize d = map canonicalize ''.'' \<and>
          rmatch (Seq (Lit e) (Alt (Lit ''?'') Eos)) r \<noteq> [])
   \<longleftrightarrow> rmatch (Seq (Lit (CHR ''.'' # e)) (Alt (Lit ''?'') Eos)) q \<noteq> []"
proof
  assume "\<exists>d r. q = d @ r \<and> map canonicalize d = map canonicalize ''.'' \<and>
          rmatch (Seq (Lit e) (Alt (Lit ''?'') Eos)) r \<noteq> []"
  then obtain d r where dr: "q = d @ r" "map canonicalize d = map canonicalize ''.''"
    "rmatch (Seq (Lit e) (Alt (Lit ''?'') Eos)) r \<noteq> []" by blast
  from dr(3) obtain m t where mt: "r = m @ t" "map canonicalize m = map canonicalize e"
    "rmatch (Alt (Lit ''?'') Eos) t \<noteq> []" unfolding rmatch_Seq_Lit by blast
  from dr mt have "q = (d @ m) @ t \<and> map canonicalize (d @ m) = map canonicalize (CHR ''.'' # e)
     \<and> rmatch (Alt (Lit ''?'') Eos) t \<noteq> []" by simp
  then show "rmatch (Seq (Lit (CHR ''.'' # e)) (Alt (Lit ''?'') Eos)) q \<noteq> []"
    unfolding rmatch_Seq_Lit by blast
next
  assume "rmatch (Seq (Lit (CHR ''.'' # e)) (Alt (Lit ''?'') Eos)) q \<noteq> []"
  then obtain x t where xt: "q = x @ t" "map canonicalize x = map canonicalize (CHR ''.'' # e)"
    "rmatch (Alt (Lit ''?'') Eos) t \<noteq> []" unfolding rmatch_Seq_Lit by blast
  from xt(2) obtain d m where dm: "x = d @ m" "map canonicalize d = map canonicalize ''.''"
    "map canonicalize m = map canonicalize e"
    using ci_split [of x "CHR ''.''" e] by blast
  from dm(3) xt(3) have "rmatch (Seq (Lit e) (Alt (Lit ''?'') Eos)) (m @ t) \<noteq> []"
    unfolding rmatch_Seq_Lit by blast
  with xt(1) dm(1,2) have "q = d @ (m @ t) \<and> map canonicalize d = map canonicalize ''.'' \<and>
     rmatch (Seq (Lit e) (Alt (Lit ''?'') Eos)) (m @ t) \<noteq> []" by simp
  then show "\<exists>d r. q = d @ r \<and> map canonicalize d = map canonicalize ''.'' \<and>
          rmatch (Seq (Lit e) (Alt (Lit ''?'') Eos)) r \<noteq> []" by blast
qed

lemma rmatch_subtitle:
  "rmatch (Seq (Lit ''.'') (Seq (Alt (Lit ''vtt'') (Lit ''srt'')) (Alt (Lit ''?'') Eos))) q \<noteq> []
   \<longleftrightarrow> (rmatch (Seq (Lit ''.vtt'') (Alt (Lit ''?'') Eos)) q \<noteq> [] \<or>
        rmatch (Seq (Lit ''.srt'') (Alt (Lit ''?'') Eos)) q \<noteq> [])"
proof -
  have "rmatch (Seq (Lit ''.'') (Seq (Alt (Lit ''vtt'') (Lit ''srt'')) (Alt (Lit ''?'') Eos))) q \<noteq> []
    \<longleftrightarrow> (\<exists>d r. q = d @ r \<and> map canonicalize d = map canonicalize ''.'' \<and>
           (rmatch (Seq (Lit ''vtt'') (Alt (Lit ''?'') Eos)) r \<noteq> [] \<or>
            rmatch (Seq (Lit ''srt'') (Alt (Lit ''?'') Eos)) r \<noteq> []))"
    by (simp only: rmatch_Seq_Lit [of "''.''"] rmatch_Alt_Lit_Seq)
  also have "\<dots> \<longleftrightarrow>
     ((\<exists>d r. q = d @ r \<and> map canonicalize d = map canonicalize ''.'' \<and>
           rmatch (Seq (Lit ''vtt'') (Alt (Lit ''?'') Eos)) r \<noteq> []) \<or>
      (\<exists>d r. q = d @ r \<and> map canonicalize d = map canonicalize ''.'' \<and>
           rmatch (Seq (Lit ''srt'') (Alt (Lit ''?'') Eos)) r \<noteq> []))"
    by (simp only: conj_disj_distribL ex_disj_distrib)
  also have "\<dots> \<longleftrightarrow> (rmatch (Seq (Lit ''.vtt'') (Alt (Lit ''?'') Eos)) q \<noteq> [] \<or>
        rmatch (Seq (Lit ''.srt'') (Alt (Lit ''?'') Eos)) q \<noteq> [])"
    by (simp only: rmatch_dot_ext)
  finally show ?thesis .
qed

lemma isSubtitle_iff:
  "isSubtitle u \<longleftrightarrow>
   (\<exists>p m t. u = p @ m @ t \<and>
            (map canonicalize m = map canonicalize ''.vtt'' \<or>
             map canonicalize m = map canonicalize ''.srt'') \<and>
            (t = [] \<or> (\<exists>t'. t = CHR ''?'' # t')))"
  unfolding isSubtitle_def regex_test_iff rmatch_subtitle rmatch_ext_tail by blast

lemma ends_with_ci_before_query:
  assumes "ends_with_ci e (before_query u)"
  shows "\<exists>p m t. u = p @ m @ t \<and> map canonicalize m = map canonicalize e \<and>
                 (t = [] \<or> (\<exists>t'. t = CHR ''?'' # t'))"
proof -
  let ?b = "before_query u"
  let ?t = "dropWhile (\<lambda>c. c \<noteq> CHR ''?'') u"
  let ?k = "length ?b - length e"
  have u: "u = ?b @ ?t" by (simp add: before_query_def)
  have b: "?b = take ?k ?b @ drop ?k ?b" by simp
  from assms have m: "map canonicalize (drop ?k ?b) = map canonicalize e"
    by (simp add: ends_with_ci_def)
  have t: "?t = [] \<or> (\<exists>t'. ?t = CHR ''?'' # t')"
  proof (cases ?t)
    case Nil
    then show ?thesis by simp
  next
    case (Cons y ys)
    then have "y = CHR ''?''" by (simp add: dropWhile_eq_Cons_conv)
    with Cons show ?thesis by simp
  qed
  from u b have "u = take ?k ?b @ drop ?k ?b @ ?t" by (metis append_assoc)
  with m t show ?thesis by blast
qed

lemma spec_isManifestURL_imp: "spec_isManifestURL u \<Longrightarrow> isM3U8 u"
  unfolding spec_isManifestURL_def isM3U8_iff by (rule ends_with_ci_before_query)

lemma spec_isSubtitleURL_imp: "spec_isSubtitleURL u \<Longrightarrow> isSubtitle u"
  unfolding spec_isSubtitleURL_def isSubtitle_iff
  using ends_with_ci_before_query [of "''.vtt''" u] ends_with_ci_before_query [of "''.srt''" u]
  by blast

text \<open>
  Claim C2, as amended. \<open>isM3U8 u\<close> holds exactly when \<open>u\<close> contains \<open>.m3u8\<close>, in any
  letter case, followed at once by \<open>?\<close> or by the end of the string. It holds in particular
  whenever the part of \<open>u\<close> before its first \<open>?\<close> ends with \<open>.m3u8\<close> in any letter case;
  \<open>http://x/a.M3U8?t=1\<close> is classified as a manifest and \<open>http://x/a.m3u8x\<close> is not.
\<close>

theorem isM3U8_characterisation:
  "(isM3U8 u \<longleftrightarrow>
      (\<exists>p m t. u = p @ m @ t \<and> map canonicalize m = map canonicalize ''.m3u8'' \<and>
               (t = [] \<or> (\<exists>t'. t = CHR ''?'' # t')))) \<and>
   (spec_isManifestURL u \<longrightarrow> isM3U8 u) \<and>
   isM3U8 ''http://x/a.M3U8?t=1'' \<and> \<not> isM3U8 ''http://x/a.m3u8x''"
proof -
  have "isM3U8 ''http://x/a.M3U8?t=1''" by code_simp
  moreover have "\<not> isM3U8 ''http://x/a.m3u8x''" by code_simp
  ultimately show ?thesis
    using isM3U8_iff [of u] spec_isManifestURL_imp [of u] by blast
qed

theorem isM3U8_characterisation_witness:
  "spec_isManifestURL ''http://x/v/index.m3u8?token=1'' \<and> isM3U8 ''http://x/v/index.m3u8?token=1''"
proof -
  have h: "spec_isManifestURL ''http://x/v/index.m3u8?token=1''" by code_simp
  with isM3U8_characterisation [of "''http://x/v/index.m3u8?token=1''"] show ?thesis by blast
qed

text \<open>
  Claim C2 as the specification words it fails: in \<open>http://x/a.srt?f=.m3u8\<close> the part
  before the query string ends with \<open>.srt\<close>, and the string is classified as a manifest.
\<close>

theorem isM3U8_not_path_suffix:
  "\<not> (isM3U8 ''http://x/a.srt?f=.m3u8'' \<longleftrightarrow> spec_isManifestURL ''http://x/a.srt?f=.m3u8'')"
  by code_simp

text \<open>
  Claim C8, as amended. \<open>isSubtitle u\<close> holds exactly when \<open>u\<close> contains \<open>.vtt\<close> or \<open>.srt\<close>,
  in any letter case, followed at once by \<open>?\<close> or by the end of the string. It holds in
  particular whenever the part of \<open>u\<close> before its first \<open>?\<close> ends with \<open>.vtt\<close> or \<open>.srt\<close> in
  any letter case; \<open>http://x/s.srt\<close> is classified as a subtitle and \<open>http://x/s.srts\<close> is
  not.
\<close>

theorem isSubtitle_characterisation:
  "(isSubtitle u \<longleftrightarrow>
      (\<exists>p m t. u = p @ m @ t \<and>
               (map canonicalize m = map canonicalize ''.vtt'' \<or>
                map canonicalize m = map canonicalize ''.srt'') \<and>
               (t = [] \<or> (\<exists>t'. t = CHR ''?'' # t')))) \<and>
   (spec_isSubtitleURL u \<longrightarrow> isSubtitle u) \<and>
   isSubtitle ''http://x/s.srt'' \<and> \<not> isSubtitle ''http://x/s.srts''"
proof -
  have "isSubtitle ''http://x/s.srt''" by code_simp
  moreover have "\<not> isSubtitle ''http://x/s.srts''" by code_simp
  ultimately show ?thesis
    using isSubtitle_iff [of u] spec_isSubtitleURL_imp [of u] by blast
qed

theorem isSubtitle_characterisation_witness:
  "spec_isSubtitleURL ''http://x/subs/en.VTT?v=2'' \<and> isSubtitle ''http://x/subs/en.VTT?v=2''"
proof -
  have h: "spec_isSubtitleURL ''http://x/subs/en.VTT?v=2''" by code_simp
  with isSubtitle_characterisation [of "''http://x/subs/en.VTT?v=2''"] show ?thesis by blast
qed

text \<open>
  Claim C8 as the specification words it fails: in \<open>http://x/a.m3u8?f=.srt\<close> the part
  before the query string ends with \<open>.m3u8\<close>, and the string is classified as a subtitle.
\<close>

theorem isSubtitle_not_path_suffix:
  "\<not> (isSubtitle ''http://x/a.m3u8?f=.srt'' \<longleftrightarrow> spec_isSubtitleURL ''http://x/a.m3u8?f=.srt'')"
  by code_simp

section \<open>How a call treats its session\<close>

text \<open>
  What each operation leaves unchanged, and that each operation, from the handlers up to
  the \<open>try\<close> blocks of the entry points, is an \<open>evolves\<close> step. The statements about
  whole calls are put together from these steps.
\<close>

lemma log_simps [simp]:
  "m3u8Urls (log a s) = m3u8Urls s" "subUrls (log a s) = subUrls s"
  "browser (log a s) = browser s" "collecting (log a s) = collecting s"
  "tick (log a s) = tick s" "now (log a s) = now s" "trace (log a s) = trace s @ [a]"
  by (simp_all add: log_def)

lemma prefix_set_add: "prefix xs (set_add x xs)"
  by (simp add: set_add_def)

lemma set_set_add [simp]: "set (set_add x xs) = insert x (set xs)"
  by (auto simp: set_add_def)

lemma classify_simps [simp]:
  "browser (classify u s) = browser s" "collecting (classify u s) = collecting s"
  "tick (classify u s) = tick s" "now (classify u s) = now s"
  "m3u8Urls (classify u s) = (if isM3U8 u then set_add u (m3u8Urls s) else m3u8Urls s)"
  "subUrls (classify u s) = (if isSubtitle u then set_add u (subUrls s) else subUrls s)"
  "trace (classify u s) = trace s @ (if isM3U8 u then [RecordManifest u] else [])
                                  @ (if isSubtitle u then [RecordSubtitle u] else [])"
  by (simp_all add: classify_def Let_def)

lemma on_request_simps [simp]:
  "browser (on_request u ty rej s) = browser s" "collecting (on_request u ty rej s) = collecting s"
  "tick (on_request u ty rej s) = tick s" "now (on_request u ty rej s) = now s"
  "m3u8Urls (on_request u ty rej s) = m3u8Urls (classify u s)"
  "subUrls (on_request u ty rej s) = subUrls (classify u s)"
  "trace (on_request u ty rej s) =
     trace (classify u s) @ [if isHeavyResource ty then AbortRequest u else ContinueRequest u]"
  by (simp_all add: on_request_def Let_def split: option.splits)

lemma on_response_simps [simp]:
  "browser (on_response a b s) = browser s" "collecting (on_response a b s) = collecting s"
  "tick (on_response a b s) = tick s" "now (on_response a b s) = now s"
  by (simp_all add: on_response_def Let_def split: option.splits)

lemma handle_simps [simp]:
  "browser (handle ev s) = browser s" "collecting (handle ev s) = collecting s"
  "tick (handle ev s) = tick s" "now (handle ev s) = now s"
  by (cases ev; simp)+

lemma fold_handle_simps [simp]:
  "browser (fold handle evs s) = browser s" "collecting (fold handle evs s) = collecting s"
  "tick (fold handle evs s) = tick s" "now (fold handle evs s) = now s"
  by (induction evs arbitrary: s; simp)+

lemma deliver_simps [simp]:
  "browser (deliver evs s) = browser s" "collecting (deliver evs s) = collecting s"
  "tick (deliver evs s) = tick s" "now (deliver evs s) = now s"
  by (simp_all add: deliver_def)

lemma await_simps [simp]:
  "browser (snd (await w a ms s)) = browser s" "collecting (snd (await w a ms s)) = collecting s"
  "tick (snd (await w a ms s)) = Suc (tick s)"
  "now (snd (await w a ms s)) = now s + ms + elapsed (w (tick s))"
  "fst (await w a ms s) = w (tick s)"
  by (simp_all add: await_def Let_def)

lemma evolves_refl [simp]: "evolves w D P s s"
  by (auto simp: evolves_def grows_def)

lemma evolves_trans:
  assumes "evolves w D P s s1" and "evolves w D P s1 s2"
  shows "evolves w D P s s2"
proof -
  from assms obtain xs ys where
    "trace s1 = trace s @ xs" "\<forall>a \<in> set xs. is_collector a \<or> P a"
    "trace s2 = trace s1 @ ys" "\<forall>a \<in> set ys. is_collector a \<or> P a"
    unfolding evolves_def by blast
  then have "trace s2 = trace s @ (xs @ ys) \<and> (\<forall>a \<in> set (xs @ ys). is_collector a \<or> P a)"
    by auto
  then have tr: "\<exists>zs. trace s2 = trace s @ zs \<and> (\<forall>a \<in> set zs. is_collector a \<or> P a)"
    by blast
  from assms have "grows s s2"
    unfolding evolves_def grows_def by (meson prefix_order.order_trans)
  moreover from assms have "set (m3u8Urls s2) \<subseteq> set (m3u8Urls s) \<union> {u \<in> wire w. isM3U8 u}"
    unfolding evolves_def by blast
  moreover from assms have "set (subUrls s2) \<subseteq> set (subUrls s) \<union> {u \<in> wire w. isSubtitle u} \<union> D"
    unfolding evolves_def by blast
  moreover from assms have "(browser s \<longrightarrow> browser s2) \<and> (collecting s \<longrightarrow> collecting s2) \<and>
     tick s \<le> tick s2 \<and> now s \<le> now s2"
    unfolding evolves_def by auto
  ultimately show ?thesis using tr unfolding evolves_def by blast
qed

lemma evolves_log: "is_collector a \<or> P a \<Longrightarrow> evolves w D P s (log a s)"
  by (auto simp: evolves_def grows_def)

lemma evolves_classify: "u \<in> wire w \<Longrightarrow> evolves w D P s (classify u s)"
  by (auto simp: evolves_def grows_def prefix_set_add)

lemma evolves_handle:
  assumes "set (event_urls ev) \<subseteq> wire w"
  shows "evolves w D P s (handle ev s)"
proof (cases ev)
  case (Request u ty rej)
  with assms have u: "u \<in> wire w" by simp
  have "evolves w D P (classify u s) (on_request u ty rej s)"
    by (auto simp: evolves_def grows_def)
  with evolves_classify [OF u] Request show ?thesis
    by (auto intro: evolves_trans)
next
  case (Response a b)
  show ?thesis
  proof (cases a)
    case None
    with Response show ?thesis by (simp add: on_response_def)
  next
    case (Some u)
    with Response assms have u: "u \<in> wire w" by simp
    show ?thesis
    proof (cases b)
      case None
      with Some Response evolves_classify [OF u] show ?thesis by (simp add: on_response_def)
    next
      case (Some v)
      with Response assms have v: "v \<in> wire w" by simp
      from evolves_classify [OF u] evolves_classify [OF v]
      have "evolves w D P s (classify v (classify u s))" by (rule evolves_trans)
      with Response \<open>a = Some u\<close> Some show ?thesis by (simp add: on_response_def)
    qed
  qed
qed

lemma evolves_fold_handle:
  "\<forall>ev \<in> set evs. set (event_urls ev) \<subseteq> wire w \<Longrightarrow> evolves w D P s (fold handle evs s)"
proof (induction evs arbitrary: s)
  case Nil
  then show ?case by simp
next
  case (Cons ev evs)
  then have "evolves w D P s (handle ev s)" by (simp add: evolves_handle)
  moreover from Cons have "evolves w D P (handle ev s) (fold handle evs (handle ev s))" by simp
  ultimately show ?case by (auto intro: evolves_trans)
qed

lemma traffic_wire: "\<forall>ev \<in> set (traffic (w k)). set (event_urls ev) \<subseteq> wire w"
  by (auto simp: wire_def)

lemma evolves_deliver: "evolves w D P s (deliver (traffic (w k)) s)"
  by (simp add: deliver_def evolves_fold_handle traffic_wire)

lemma evolves_await:
  assumes "is_collector a \<or> P a"
  shows "evolves w D P s (snd (await w a ms s))"
proof -
  let ?s1 = "deliver (traffic (w (tick s))) (log a s)"
  have "evolves w D P s (log a s)" using assms by (rule evolves_log)
  moreover have "evolves w D P (log a s) ?s1" by (rule evolves_deliver)
  moreover have "evolves w D P ?s1 (?s1\<lparr>tick := tick s + 1, now := now s + ms + elapsed (w (tick s))\<rparr>)"
    by (auto simp: evolves_def grows_def)
  ultimately show ?thesis
    by (auto simp: await_def Let_def intro: evolves_trans)
qed

lemma bnd_Inr: "m s = (Inr x, s1) \<Longrightarrow> bnd m f s = f x s1"
  by (simp add: bnd_def)

lemma bnd_Inl: "m s = (Inl e, s1) \<Longrightarrow> bnd m f s = (Inl e, s1)"
  by (simp add: bnd_def)

lemma evolves_weaken:
  assumes "evolves w D P s s'" and "D \<subseteq> D'" and "\<And>a. P a \<Longrightarrow> Q a"
  shows "evolves w D' Q s s'"
proof -
  from assms(1) obtain xs where "trace s' = trace s @ xs" "\<forall>a \<in> set xs. is_collector a \<or> P a"
    unfolding evolves_def by blast
  with assms(3) have "trace s' = trace s @ xs \<and> (\<forall>a \<in> set xs. is_collector a \<or> Q a)"
    by blast
  then have tr: "\<exists>xs. trace s' = trace s @ xs \<and> (\<forall>a \<in> set xs. is_collector a \<or> Q a)" ..
  from assms(1,2)
  have su: "set (subUrls s') \<subseteq> set (subUrls s) \<union> {u \<in> wire w. isSubtitle u} \<union> D'"
    unfolding evolves_def by blast
  from assms(1) have rest: "grows s s'"
     "set (m3u8Urls s') \<subseteq> set (m3u8Urls s) \<union> {u \<in> wire w. isM3U8 u}"
     "browser s \<longrightarrow> browser s'" "collecting s \<longrightarrow> collecting s'"
     "tick s \<le> tick s'" "now s \<le> now s'"
    unfolding evolves_def by simp_all
  show ?thesis unfolding evolves_def
    using tr su rest by simp
qed

lemma call_snd [simp]: "snd (call w a s) = snd (await w a 0 s)"
  by (simp add: call_def split_beta split: option.splits)

lemma call_fst:
  "fst (call w a s) = (case failure (w (tick s)) of None \<Rightarrow> Inr () | Some e \<Rightarrow> Inl e)"
  by (simp add: call_def split_beta split: option.splits)

lemma tryAutoplay_eq:
  "tryAutoplay w f s =
     (if detached (w (tick s)) then log (EvaluateAutoplay f) s
      else snd (await w (EvaluateAutoplay f) 0 s))"
  by (simp add: tryAutoplay_def split_beta split: option.splits)

lemma close_browser_eq:
  "close_browser w s = (if browser s then snd (await w CloseBrowser 0 s) else s)"
  by (simp add: close_browser_def split_beta split: option.splits)

lemma evaluate_domSubs_snd [simp]:
  "snd (evaluate_domSubs w s) = snd (await w EvaluateDomSubs 0 s)"
  by (simp add: evaluate_domSubs_def split_beta split: option.splits)

lemma evaluate_domSubs_fst:
  "fst (evaluate_domSubs w s) =
     (case failure (w (tick s)) of None \<Rightarrow> Inr (domSubs_script (main_doc (w (tick s))))
                                 | Some e \<Rightarrow> Inl e)"
  by (simp add: evaluate_domSubs_def split_beta split: option.splits)

lemma evolves_call: "is_collector a \<or> P a \<Longrightarrow> evolves w D P s (snd (call w a s))"
  by (simp add: evolves_await)

lemma evolves_delay: "P (Delay ms) \<Longrightarrow> evolves w D P s (delay w ms s)"
  by (simp add: delay_def evolves_await)

lemma evolves_run: "(\<And>s. evolves w D P s (f s)) \<Longrightarrow> evolves w D P s (snd (run f s))"
  by (simp add: run_def)

lemma evolves_ret: "evolves w D P s (snd (ret x s))"
  by (simp add: ret_def)

lemma evolves_bnd_from:
  assumes "\<And>x s. evolves w D P s (snd (f x s))"
  shows "evolves w D P (snd (m s)) (snd (bnd m f s))"
proof (cases "m s")
  case (Pair r s1)
  show ?thesis
  proof (cases r)
    case (Inl e)
    from Pair have "bnd m f s = (Inl e, s1)" unfolding Inl by (rule bnd_Inl)
    with Pair show ?thesis by (simp only: snd_conv evolves_refl)
  next
    case (Inr x)
    from Pair have "bnd m f s = f x s1" unfolding Inr by (rule bnd_Inr)
    with Pair assms [of s1 x] show ?thesis by (simp only: snd_conv)
  qed
qed

lemma evolves_bnd:
  assumes "\<And>s. evolves w D P s (snd (m s))" and "\<And>x s. evolves w D P s (snd (f x s))"
  shows "evolves w D P s (snd (bnd m f s))"
  by (rule evolves_trans [OF assms(1) evolves_bnd_from]) (rule assms(2))

lemma evolves_snd_if:
  "(c \<Longrightarrow> evolves w D P s (snd A)) \<Longrightarrow> (\<not> c \<Longrightarrow> evolves w D P s (snd B)) \<Longrightarrow>
   evolves w D P s (snd (if c then A else B))"
  by simp

lemma evolves_createPage:
  assumes "\<forall>a. \<not> is_interaction a \<longrightarrow> P a"
  shows "evolves w D P s (snd (createPage w s))"
proof -
  have c: "evolves w D P s (snd (call w a s))" if "\<not> is_interaction a" for a s
    using that assms by (simp add: evolves_await)
  show ?thesis
    unfolding createPage_def
    by (intro evolves_bnd c) simp_all
qed

lemma tryClickSelectors_Cons:
  "tryClickSelectors w f (sel # sels) s =
    (if detached (w (tick s)) then (Inl detached_frame, log (Query f sel) s)
     else if failure (w (tick s)) \<noteq> None \<or> \<not> found (w (tick s))
     then tryClickSelectors w f sels (snd (await w (Query f sel) 0 s))
     else if failure (w (Suc (tick s))) = None
          then (Inr True, snd (await w (Click f sel 50) 0 (snd (await w (Query f sel) 0 s))))
          else tryClickSelectors w f sels
                 (snd (await w (Click f sel 50) 0 (snd (await w (Query f sel) 0 s)))))"
  by (simp add: split_beta)

lemma evolves_tryClickSelectors:
  assumes "\<forall>a. is_interaction a \<longrightarrow> P a"
  shows "evolves w D P s (snd (tryClickSelectors w f sels s))"
proof (induction sels arbitrary: s)
  case Nil
  then show ?case by simp
next
  case (Cons sel sels)
  let ?s1 = "snd (await w (Query f sel) 0 s)"
  let ?s2 = "snd (await w (Click f sel 50) 0 ?s1)"
  have 0: "evolves w D P s (log (Query f sel) s)" by (simp add: evolves_log assms)
  have 1: "evolves w D P s ?s1" by (simp add: evolves_await assms)
  have 2: "evolves w D P ?s1 ?s2" by (simp add: evolves_await assms)
  from 1 2 have 3: "evolves w D P s ?s2" by (rule evolves_trans)
  from 1 Cons.IH [of ?s1] have 4: "evolves w D P s (snd (tryClickSelectors w f sels ?s1))"
    by (rule evolves_trans)
  from 3 Cons.IH [of ?s2] have 5: "evolves w D P s (snd (tryClickSelectors w f sels ?s2))"
    by (rule evolves_trans)
  from 0 3 4 5 show ?case
    by (simp add: tryClickSelectors_Cons del: tryClickSelectors.simps)
qed

lemma evolves_tryCloseOverlays:
  "\<forall>a. is_interaction a \<longrightarrow> P a \<Longrightarrow> evolves w D P s (snd (tryCloseOverlays w f s))"
  unfolding tryCloseOverlays_def
  by (intro evolves_bnd evolves_ret evolves_tryClickSelectors)

lemma evolves_tryAutoplay:
  "\<forall>a. is_interaction a \<longrightarrow> P a \<Longrightarrow> evolves w D P s (tryAutoplay w f s)"
  by (simp add: tryAutoplay_eq evolves_await evolves_log)

lemma evolves_tryPlay:
  assumes "\<forall>a. is_interaction a \<longrightarrow> P a"
  shows "evolves w D P s (snd (tryPlay w f s))"
  unfolding tryPlay_def
  by (intro evolves_bnd evolves_run evolves_tryClickSelectors evolves_tryAutoplay assms)

lemma evolves_interact_frames:
  assumes "\<forall>a. is_interaction a \<longrightarrow> P a"
  shows "evolves w D P s (snd (interact_frames w fs s))"
proof (induction fs arbitrary: s)
  case Nil
  then show ?case by (simp add: evolves_ret)
next
  case (Cons f fs)
  show ?case
    unfolding interact_frames.simps
    by (intro evolves_bnd evolves_tryCloseOverlays evolves_tryPlay assms Cons.IH)
qed

lemma evolves_tryInteractAllFrames:
  assumes "\<forall>a. is_interaction a \<longrightarrow> P a"
  shows "evolves w D P s (snd (tryInteractAllFrames w s))"
proof -
  from assms have "evolves w D P s (log Frames s)" by (simp add: evolves_log)
  from this evolves_interact_frames [OF assms] show ?thesis
    unfolding tryInteractAllFrames_def by (rule evolves_trans)
qed

lemma poll_continue:
  "now s - start < 5000 \<Longrightarrow> m3u8Urls s = [] \<Longrightarrow> poll w start s = poll w start (delay w 250 s)"
  by (subst poll.simps) simp

lemma poll_stop:
  "\<not> now s - start < 5000 \<or> m3u8Urls s \<noteq> [] \<Longrightarrow> poll w start s = s"
  by (subst poll.simps) auto

lemma evolves_poll: "P (Delay 250) \<Longrightarrow> evolves w D P s (poll w start s)"
proof (induction w start s rule: poll.induct)
  case (1 w start s)
  show ?case
  proof (cases "now s - start < 5000 \<and> m3u8Urls s = []")
    case True
    then have "poll w start s = poll w start (delay w 250 s)"
      by (simp add: poll_continue)
    moreover from True 1 have "evolves w D P (delay w 250 s) (poll w start (delay w 250 s))"
      by simp
    moreover from 1(2) have "evolves w D P s (delay w 250 s)" by (rule evolves_delay)
    ultimately show ?thesis using evolves_trans by metis
  next
    case False
    then have "poll w start s = s" by (simp add: poll_stop)
    then show ?thesis by simp
  qed
qed

lemma evolves_poll_from_now: "P (Delay 250) \<Longrightarrow> evolves w D P s (poll_from_now w s)"
  by (simp add: poll_from_now_def evolves_poll)

lemma evolves_close_browser: "P CloseBrowser \<Longrightarrow> evolves w D P s (close_browser w s)"
  by (simp add: close_browser_eq evolves_await)

lemma evolves_evaluate_domSubs:
  "P EvaluateDomSubs \<Longrightarrow> evolves w D P s (snd (evaluate_domSubs w s))"
  by (simp add: evolves_await)

lemma prefix_fold_set_add: "prefix xs (fold set_add ds xs)"
proof (induction ds arbitrary: xs)
  case Nil
  then show ?case by simp
next
  case (Cons d ds)
  have "prefix xs (set_add d xs)" by (rule prefix_set_add)
  from this Cons.IH [of "set_add d xs"] have "prefix xs (fold set_add ds (set_add d xs))"
    by (rule prefix_order.order_trans)
  then show ?case by simp
qed

lemma set_fold_set_add [simp]: "set (fold set_add ds xs) = set xs \<union> set ds"
  by (induction ds arbitrary: xs) auto

lemma evolves_merge_domSubs: "set ds \<subseteq> D \<Longrightarrow> evolves w D P s (merge_domSubs ds s)"
  by (auto simp: evolves_def grows_def merge_domSubs_def prefix_fold_set_add)

lemma scrapeProvider_try_unfold:
  "scrapeProvider_try w targetUrl s =
     (case open_page w targetUrl s of
        (Inl e, s1) \<Rightarrow> (Inl e, s1)
      | (Inr x, s1) \<Rightarrow>
          if m3u8Urls s1 \<noteq> [] then (Inr (m3u8Urls s1), s1)
          else
            (case tryInteractAllFrames w s1 of
               (Inl e, s1') \<Rightarrow> (Inl e, s1')
             | (Inr y, s1') \<Rightarrow>
                 let s2 = delay w CLICK_WAIT_MS s1'
                 in if m3u8Urls s2 \<noteq> [] then (Inr (m3u8Urls s2), s2)
                    else
                      (case tryInteractAllFrames w s2 of
                         (Inl e, s2') \<Rightarrow> (Inl e, s2')
                       | (Inr z, s2') \<Rightarrow>
                           let s3 = poll_from_now w s2' in (Inr (m3u8Urls s3), s3))))"
  by (simp add: scrapeProvider_try_def bnd_def run_def ret_def Let_def
           split: prod.splits sum.splits)

lemma bnd_assoc: "bnd (bnd m f) g = bnd m (\<lambda>x. bnd (f x) g)"
  by (rule ext) (simp add: bnd_def split: prod.splits sum.splits)

lemma scrapeProviderWithSubtitles_try_phases:
  "scrapeProviderWithSubtitles_try w targetUrl =
     bnd (open_page w targetUrl) (\<lambda>_.
     bnd (evaluate_domSubs w) (\<lambda>domSubs.
     bnd (run (merge_domSubs domSubs)) (\<lambda>_.
     bnd (interact_and_poll w) (\<lambda>_ s.
       ret \<lparr>urls = m3u8Urls s,
            subtitles = map (\<lambda>u. \<lparr>url = u, label = None, lang = None\<rparr>) (subUrls s)\<rparr> s))))"
  by (simp only: scrapeProviderWithSubtitles_try_def interact_and_poll_def bnd_assoc)

lemma scrapeProviderWithSubtitles_try_unfold:
  "scrapeProviderWithSubtitles_try w targetUrl s =
     (case open_page w targetUrl s of
        (Inl e, s1) \<Rightarrow> (Inl e, s1)
      | (Inr x, s1) \<Rightarrow>
          (case failure (w (tick s1)) of
             Some e \<Rightarrow> (Inl e, snd (await w EvaluateDomSubs 0 s1))
           | None \<Rightarrow>
               (case interact_and_poll w
                          (merge_domSubs (domSubs_script (main_doc (w (tick s1))))
                             (snd (await w EvaluateDomSubs 0 s1))) of
                  (Inl e, s4) \<Rightarrow> (Inl e, s4)
                | (Inr y, s4) \<Rightarrow>
                    (Inr \<lparr>urls = m3u8Urls s4,
                          subtitles = map (\<lambda>u. \<lparr>url = u, label = None, lang = None\<rparr>) (subUrls s4)\<rparr>,
                     s4))))"
proof -
  obtain r s1 where o: "open_page w targetUrl s = (r, s1)"
    by (cases "open_page w targetUrl s")
  obtain q s4 where ip: "interact_and_poll w
                          (merge_domSubs (domSubs_script (main_doc (w (tick s1))))
                             (snd (await w EvaluateDomSubs 0 s1))) = (q, s4)"
    by (cases "interact_and_poll w
                          (merge_domSubs (domSubs_script (main_doc (w (tick s1))))
                             (snd (await w EvaluateDomSubs 0 s1)))")
  show ?thesis
  proof (cases r)
    case (Inl e)
    with o show ?thesis by (simp add: scrapeProviderWithSubtitles_try_phases bnd_def)
  next
    case (Inr x)
    show ?thesis
    proof (cases "failure (w (tick s1))")
      case (Some e)
      with o Inr show ?thesis
        by (simp add: scrapeProviderWithSubtitles_try_phases bnd_def evaluate_domSubs_def split_beta)
    next
      case None
      with o Inr ip show ?thesis
        by (cases q)
           (simp_all add: scrapeProviderWithSubtitles_try_phases bnd_def run_def ret_def
              evaluate_domSubs_def split_beta)
    qed
  qed
qed

lemma evolves_open_page:
  assumes "\<forall>a. \<not> is_interaction a \<longrightarrow> P a"
  shows "evolves w D P s (snd (open_page w targetUrl s))"
proof -
  have c: "evolves w D P s (snd (call w a s))" if "\<not> is_interaction a" for a s
    using that assms by (simp add: evolves_await)
  have d: "evolves w D P s (delay w ms s)" for ms s
    using assms by (simp add: evolves_delay)
  have b: "evolves w D P s (s\<lparr>browser := True\<rparr>)" for s
    by (auto simp: evolves_def grows_def)
  have a: "evolves w D P s (attachNetworkCollectors s)" for s
    by (auto simp: evolves_def grows_def attachNetworkCollectors_def)
  show ?thesis
    unfolding open_page_def
    by (intro evolves_bnd evolves_run evolves_createPage c d b a assms) simp_all
qed

lemma open_page_launch_failed:
  "failure (w (tick s)) = Some e \<Longrightarrow>
   open_page w targetUrl s = (Inl e, snd (await w (Launch launchArgs) 0 s))"
  by (simp add: open_page_def bnd_def call_def split_beta)

lemma open_page_launched:
  assumes "failure (w (tick s)) = None"
  shows "browser (snd (open_page w targetUrl s))"
proof -
  let ?s0 = "snd (await w (Launch launchArgs) 0 s)"
  let ?rest = "bnd (createPage w) (\<lambda>_.
     bnd (run attachNetworkCollectors) (\<lambda>_.
     bnd (call w (Goto targetUrl ''domcontentloaded'' 30000)) (\<lambda>_.
     run (delay w PASSIVE_WAIT_MS))))"
  have c: "evolves w {} (\<lambda>a. \<not> is_interaction a) s (snd (call w a s))" if "\<not> is_interaction a" for a s
    using that by (simp add: evolves_await)
  have d: "evolves w {} (\<lambda>a. \<not> is_interaction a) s (delay w ms s)" for ms s
    by (simp add: evolves_delay)
  have a: "evolves w {} (\<lambda>a. \<not> is_interaction a) s (attachNetworkCollectors s)" for s
    by (auto simp: evolves_def grows_def attachNetworkCollectors_def)
  have "evolves w {} (\<lambda>a. \<not> is_interaction a) (?s0\<lparr>browser := True\<rparr>) (snd (?rest (?s0\<lparr>browser := True\<rparr>)))"
    by (intro evolves_bnd evolves_run evolves_createPage c d a) simp_all
  then have "browser (snd (?rest (?s0\<lparr>browser := True\<rparr>)))"
    by (simp add: evolves_def)
  moreover from assms have "open_page w targetUrl s = ?rest (?s0\<lparr>browser := True\<rparr>)"
    by (simp add: open_page_def bnd_def call_def run_def split_beta)
  ultimately show ?thesis by simp
qed

lemma open_page_ok:
  assumes "open_page w targetUrl s = (Inr x, s1)"
  shows "tick s1 = tick s + 9" and "browser s1" and "collecting s1"
  using assms
  by (auto simp: open_page_def createPage_def bnd_def run_def call_def delay_def
                 attachNetworkCollectors_def split_beta
           split: option.splits sum.splits prod.splits if_splits)

lemma open_page_succeeds:
  assumes "\<forall>k < 8. failure (w (tick s + k)) = None"
  shows "fst (open_page w targetUrl s) = Inr ()"
proof -
  have f: "failure (w (tick s + k)) = None" if "k < 8" for k
    using assms that by blast
  from f [of 0] f [of 1] f [of 2] f [of 3] f [of 4] f [of 5] f [of 6] f [of 7]
  have "failure (w (tick s)) = None" "failure (w (Suc (tick s))) = None"
    "failure (w (Suc (Suc (tick s)))) = None" "failure (w (Suc (Suc (Suc (tick s))))) = None"
    "failure (w (Suc (Suc (Suc (Suc (tick s)))))) = None"
    "failure (w (Suc (Suc (Suc (Suc (Suc (tick s))))))) = None"
    "failure (w (Suc (Suc (Suc (Suc (Suc (Suc (tick s)))))))) = None"
    "failure (w (Suc (Suc (Suc (Suc (Suc (Suc (Suc (tick s))))))))) = None"
    by (simp_all add: eval_nat_numeral)
  then show ?thesis
    by (simp add: open_page_def createPage_def bnd_def call_def run_def split_beta
          attachNetworkCollectors_def)
qed

lemma evolves_interact_and_poll: "evolves w D (\<lambda>a. True) s (snd (interact_and_poll w s))"
  unfolding interact_and_poll_def
  by (intro evolves_bnd evolves_snd_if evolves_ret evolves_run evolves_tryInteractAllFrames
        evolves_delay evolves_poll_from_now) simp_all

lemma evolves_from_open_page:
  "evolves w D (\<lambda>a. True) (snd (open_page w targetUrl s)) (snd (scrapeProvider_try w targetUrl s))"
  unfolding scrapeProvider_try_def
  by (intro evolves_bnd_from evolves_bnd evolves_snd_if evolves_ret evolves_run
        evolves_tryInteractAllFrames evolves_delay evolves_poll_from_now) simp_all

lemma evolves_scrapeProvider_try:
  "evolves w D (\<lambda>a. True) s (snd (scrapeProvider_try w targetUrl s))"
  by (rule evolves_trans [OF _ evolves_from_open_page]) (simp add: evolves_open_page)

lemma evolves_from_open_page_subs:
  "evolves w UNIV (\<lambda>a. True) (snd (open_page w targetUrl s))
     (snd (scrapeProviderWithSubtitles_try w targetUrl s))"
  unfolding scrapeProviderWithSubtitles_try_phases
  by (intro evolves_bnd_from evolves_bnd evolves_ret evolves_run
        evolves_evaluate_domSubs evolves_merge_domSubs evolves_interact_and_poll) simp_all

lemma evolves_scrapeProviderWithSubtitles_try:
  "evolves w UNIV (\<lambda>a. True) s (snd (scrapeProviderWithSubtitles_try w targetUrl s))"
  by (rule evolves_trans [OF _ evolves_from_open_page_subs]) (simp add: evolves_open_page)

lemma evolves_grows: "evolves w D P s s' \<Longrightarrow> grows s s'"
  by (simp add: evolves_def)

lemma grows_deliver: "grows s (deliver evs s)"
proof -
  let ?w = "\<lambda>k::nat. idle\<lparr>traffic := evs\<rparr>"
  have "evolves ?w {} (\<lambda>a. True) s (deliver (traffic (?w 0)) s)" by (rule evolves_deliver)
  then show ?thesis by (simp add: evolves_def)
qed

lemma grows_handle: "grows s (handle ev s)"
proof -
  let ?w = "\<lambda>k::nat. idle\<lparr>traffic := [ev]\<rparr>"
  have "set (event_urls ev) \<subseteq> wire ?w" using traffic_wire [of ?w 0] by simp
  then have "evolves ?w {} (\<lambda>a. True) s (handle ev s)" by (rule evolves_handle)
  then show ?thesis by (simp add: evolves_def)
qed

lemma poll_ticks: "start + 5000 \<le> now s + 250 * k \<Longrightarrow> tick (poll w start s) \<le> tick s + k"
proof (induction k arbitrary: s)
  case 0
  then have "\<not> now s - start < 5000" by simp
  then have "poll w start s = s" by (simp add: poll_stop)
  then show ?case by simp
next
  case (Suc k)
  show ?case
  proof (cases "now s - start < 5000 \<and> m3u8Urls s = []")
    case True
    let ?s' = "delay w 250 s"
    from True have eq: "poll w start s = poll w start ?s'" by (simp add: poll_continue)
    have t: "tick ?s' = Suc (tick s)" and n: "now s + 250 \<le> now ?s'"
      by (simp_all add: delay_def)
    from Suc.prems n have "start + 5000 \<le> now ?s' + 250 * k" by simp
    then have "tick (poll w start ?s') \<le> tick ?s' + k" by (rule Suc.IH)
    with t eq show ?thesis by simp
  next
    case False
    then have "poll w start s = s" by (simp add: poll_stop)
    then show ?thesis by simp
  qed
qed

lemma poll_exit: "m3u8Urls (poll w start s) = [] \<Longrightarrow> 5000 \<le> now (poll w start s) - start"
proof (induction w start s rule: poll.induct)
  case (1 w start s)
  show ?case
  proof (cases "now s - start < 5000 \<and> m3u8Urls s = []")
    case True
    then have eq: "poll w start s = poll w start (delay w 250 s)" by (simp add: poll_continue)
    with True 1 show ?thesis by simp
  next
    case False
    then have eq: "poll w start s = s" by (simp add: poll_stop)
    with False 1(2) show ?thesis by auto
  qed
qed

lemma poll_from_now_ticks: "tick (poll_from_now w s) \<le> tick s + 20"
  using poll_ticks [of "now s" s 20 w] by (simp add: poll_from_now_def)

lemma poll_from_now_exit:
  "m3u8Urls (poll_from_now w s) = [] \<Longrightarrow> now s + 5000 \<le> now (poll_from_now w s)"
  using poll_exit [of w "now s" s] by (simp add: poll_from_now_def)

lemmas run_defs =
  open_page_def createPage_def bnd_def run_def ret_def call_def await_def delay_def deliver_def
  idle_def initial_def Let_def attachNetworkCollectors_def on_request_def on_response_def
  classify_def log_def close_browser_eq try_finally_def

lemma v_is_manifest: "isM3U8 ''http://x/v.m3u8''"
  by code_simp

lemma v_is_no_subtitle: "\<not> isSubtitle ''http://x/v.m3u8''"
  by code_simp

lemma collector_not_interaction: "is_collector a \<Longrightarrow> \<not> is_interaction a"
  by (cases a) simp_all

lemma trace_deliver:
  "\<exists>post. trace (deliver evs s) = trace s @ post \<and> (\<forall>a \<in> set post. is_collector a)"
proof -
  let ?w = "\<lambda>k::nat. idle\<lparr>traffic := evs\<rparr>"
  have "evolves ?w {} (\<lambda>a. False) s (deliver (traffic (?w 0)) s)" by (rule evolves_deliver)
  then show ?thesis by (simp add: evolves_def)
qed

lemma trace_close_browser:
  assumes "browser s"
  shows "\<exists>post. trace (close_browser w s) = trace s @ CloseBrowser # post \<and>
                (\<forall>a \<in> set post. is_collector a)"
proof -
  from trace_deliver [of "traffic (w (tick s))" "log CloseBrowser s"]
  obtain post where "trace (deliver (traffic (w (tick s))) (log CloseBrowser s)) =
      trace (log CloseBrowser s) @ post" "\<forall>a \<in> set post. is_collector a" by blast
  with assms have "trace (close_browser w s) = trace s @ CloseBrowser # post \<and>
      (\<forall>a \<in> set post. is_collector a)"
    by (simp add: close_browser_eq await_def Let_def)
  then show ?thesis by blast
qed

lemma scrapeProvider_eq:
  "scrapeProvider w targetUrl =
     (fst (scrapeProvider_try w targetUrl initial),
      close_browser w (snd (scrapeProvider_try w targetUrl initial)))"
  by (simp add: scrapeProvider_def try_finally_def split_beta)

lemma scrapeProviderWithSubtitles_eq:
  "scrapeProviderWithSubtitles w targetUrl =
     (fst (scrapeProviderWithSubtitles_try w targetUrl initial),
      close_browser w (snd (scrapeProviderWithSubtitles_try w targetUrl initial)))"
  by (simp add: scrapeProviderWithSubtitles_def try_finally_def split_beta)

text \<open>
  Claim C1. For every request that reaches the request handler, the handler first records
  the URL (into the manifest set when \<open>isM3U8\<close> accepts it, into the subtitle set when
  \<open>isSubtitle\<close> accepts it) and only then decides: it aborts the request when the resource
  type is image, stylesheet, font or media, and continues it otherwise. The URL is in
  its set afterwards whatever the resource type is.
\<close>

theorem request_recorded_before_decision:
  "trace (on_request u ty rejection s) =
     trace s @ (if isM3U8 u then [RecordManifest u] else [])
             @ (if isSubtitle u then [RecordSubtitle u] else [])
             @ [if isHeavyResource ty then AbortRequest u else ContinueRequest u] \<and>
   (isM3U8 u \<longrightarrow> u \<in> set (m3u8Urls (on_request u ty rejection s))) \<and>
   (isSubtitle u \<longrightarrow> u \<in> set (subUrls (on_request u ty rejection s))) \<and>
   (isHeavyResource ty \<longleftrightarrow> ty \<in> {''image'', ''stylesheet'', ''font'', ''media''}) \<and>
   (collecting s \<longrightarrow> deliver [Request u ty rejection] s = on_request u ty rejection s)"
  by (simp add: isHeavyResource_def deliver_def)

theorem request_recorded_before_decision_witness:
  "isM3U8 ''http://x/v.m3u8'' \<and>
   ''http://x/v.m3u8'' \<in> set (m3u8Urls (on_request ''http://x/v.m3u8'' ''media'' None initial)) \<and>
   trace (on_request ''http://x/v.m3u8'' ''media'' None initial) =
     [RecordManifest ''http://x/v.m3u8'', AbortRequest ''http://x/v.m3u8'']"
proof -
  have h: "isM3U8 ''http://x/v.m3u8''" by (rule v_is_manifest)
  have t: "trace initial = []" by (simp add: initial_def)
  from request_recorded_before_decision [of "''http://x/v.m3u8''" "''media''" None initial] h t
  show ?thesis by (simp add: v_is_no_subtitle)
qed

text \<open>
  Claim C9. The two classifiers are not mutually exclusive: both accept
  \<open>http://x/a.srt?f=.m3u8\<close>, and the request handler records a request with this URL into
  the manifest set and into the subtitle set.
\<close>

theorem classifiers_overlap:
  "isM3U8 ''http://x/a.srt?f=.m3u8'' \<and> isSubtitle ''http://x/a.srt?f=.m3u8'' \<and>
   ''http://x/a.srt?f=.m3u8'' \<in> set (m3u8Urls (on_request ''http://x/a.srt?f=.m3u8'' ty rejection s)) \<and>
   ''http://x/a.srt?f=.m3u8'' \<in> set (subUrls (on_request ''http://x/a.srt?f=.m3u8'' ty rejection s))"
proof -
  have a: "isM3U8 ''http://x/a.srt?f=.m3u8''" by code_simp
  have b: "isSubtitle ''http://x/a.srt?f=.m3u8''" by code_simp
  from a b show ?thesis by simp
qed

theorem classifiers_overlap_witness:
  "''http://x/a.srt?f=.m3u8'' \<in> set (m3u8Urls (on_request ''http://x/a.srt?f=.m3u8'' ''xhr'' None initial)) \<and>
   ''http://x/a.srt?f=.m3u8'' \<in> set (subUrls (on_request ''http://x/a.srt?f=.m3u8'' ''xhr'' None initial))"
  using classifiers_overlap [of "''xhr''" None initial] by blast

text \<open>
  Claim C3. When the manifest set is not empty after navigation and the passive wait, then
  \<open>scrapeProvider\<close> returns the manifest URLs accumulated so far, nothing happens after
  the passive wait but the closing of the browser, and no action of the interaction
  engine (frame enumeration, selector lookup, click, autoplay injection) occurs anywhere
  in the call.
\<close>

theorem early_exit_without_interaction:
  assumes "open_page w targetUrl initial = (Inr x, s1)" and "m3u8Urls s1 \<noteq> []"
  shows "fst (scrapeProvider w targetUrl) = Inr (m3u8Urls s1) \<and>
         snd (scrapeProvider w targetUrl) = close_browser w s1 \<and>
         (\<forall>a \<in> set (trace (snd (scrapeProvider w targetUrl))). \<not> is_interaction a)"
proof -
  from assms have t: "scrapeProvider_try w targetUrl initial = (Inr (m3u8Urls s1), s1)"
    by (simp add: scrapeProvider_try_unfold)
  then have r: "scrapeProvider w targetUrl = (Inr (m3u8Urls s1), close_browser w s1)"
    by (simp add: scrapeProvider_eq)
  have "evolves w {} (\<lambda>a. \<not> is_interaction a) initial (snd (open_page w targetUrl initial))"
    by (simp add: evolves_open_page)
  with assms(1) have 1: "evolves w {} (\<lambda>a. \<not> is_interaction a) initial s1" by simp
  have 2: "evolves w {} (\<lambda>a. \<not> is_interaction a) s1 (close_browser w s1)"
    by (simp add: evolves_close_browser)
  from evolves_trans [OF 1 2] obtain xs where
    "trace (close_browser w s1) = trace initial @ xs"
    "\<forall>a \<in> set xs. is_collector a \<or> \<not> is_interaction a"
    unfolding evolves_def by blast
  then have "\<forall>a \<in> set (trace (close_browser w s1)). \<not> is_interaction a"
    using collector_not_interaction by (auto simp: initial_def)
  with r show ?thesis by simp
qed

theorem early_exit_without_interaction_witness:
  "fst (scrapeProvider manifest_on_load ''http://x/'') = Inr [''http://x/v.m3u8''] \<and>
   Frames \<notin> set (trace (snd (scrapeProvider manifest_on_load ''http://x/'')))"
proof -
  let ?s1 = "snd (open_page manifest_on_load ''http://x/'' initial)"
  have "fst (open_page manifest_on_load ''http://x/'' initial) = Inr ()"
    by (simp add: run_defs manifest_on_load_def v_is_manifest v_is_no_subtitle)
  then have h1: "open_page manifest_on_load ''http://x/'' initial = (Inr (), ?s1)"
    by (simp add: prod_eq_iff)
  have h2: "m3u8Urls ?s1 = [''http://x/v.m3u8'']"
    by (simp add: run_defs manifest_on_load_def v_is_manifest v_is_no_subtitle set_add_def)
  then have h3: "m3u8Urls ?s1 \<noteq> []" by simp
  from early_exit_without_interaction [OF h1 h3]
  have a: "fst (scrapeProvider manifest_on_load ''http://x/'') = Inr (m3u8Urls ?s1)"
    and c: "\<forall>a \<in> set (trace (snd (scrapeProvider manifest_on_load ''http://x/''))). \<not> is_interaction a"
    by blast+
  have "Frames \<notin> set (trace (snd (scrapeProvider manifest_on_load ''http://x/'')))"
  proof
    assume "Frames \<in> set (trace (snd (scrapeProvider manifest_on_load ''http://x/'')))"
    with c have "\<not> is_interaction Frames" by blast
    then show False by simp
  qed
  with a h2 show ?thesis by simp
qed

lemma bnd_fst_Inr: "fst (m s) = Inr x \<Longrightarrow> bnd m f s = f x (snd (m s))"
  by (cases "m s") (simp add: bnd_def)

lemma tryClickSelectors_attached:
  assumes "\<forall>k. \<not> detached (w k)"
  shows "\<exists>b. fst (tryClickSelectors w f sels s) = Inr b"
proof (induction sels arbitrary: s)
  case Nil
  have "fst (tryClickSelectors w f [] s) = Inr False" by simp
  then show ?case by blast
next
  case (Cons sel sels)
  let ?s1 = "snd (await w (Query f sel) 0 s)"
  let ?s2 = "snd (await w (Click f sel 50) 0 ?s1)"
  from assms have a: "\<not> detached (w (tick s))" by simp
  consider "failure (w (tick s)) \<noteq> None \<or> \<not> found (w (tick s))"
    | "\<not> (failure (w (tick s)) \<noteq> None \<or> \<not> found (w (tick s)))" "failure (w (Suc (tick s))) = None"
    | "\<not> (failure (w (tick s)) \<noteq> None \<or> \<not> found (w (tick s)))" "failure (w (Suc (tick s))) \<noteq> None"
    by blast
  then show ?case
  proof cases
    case 1
    with a have "tryClickSelectors w f (sel # sels) s = tryClickSelectors w f sels ?s1"
      by (simp add: tryClickSelectors_Cons del: tryClickSelectors.simps)
    with Cons.IH [of ?s1] show ?thesis by simp
  next
    case 2
    with a have "tryClickSelectors w f (sel # sels) s = (Inr True, ?s2)"
      by (simp add: tryClickSelectors_Cons del: tryClickSelectors.simps)
    then have "fst (tryClickSelectors w f (sel # sels) s) = Inr True" by simp
    then show ?thesis by blast
  next
    case 3
    with a have "tryClickSelectors w f (sel # sels) s = tryClickSelectors w f sels ?s2"
      by (auto simp add: tryClickSelectors_Cons simp del: tryClickSelectors.simps)
    with Cons.IH [of ?s2] show ?thesis by simp
  qed
qed

lemma tryCloseOverlays_attached:
  assumes "\<forall>k. \<not> detached (w k)"
  shows "fst (tryCloseOverlays w f s) = Inr ()"
proof -
  from tryClickSelectors_attached [OF assms] obtain b where
    "fst (tryClickSelectors w f closeSelectors s) = Inr b" by blast
  then show ?thesis by (simp add: tryCloseOverlays_def bnd_fst_Inr ret_def)
qed

lemma tryPlay_attached:
  assumes "\<forall>k. \<not> detached (w k)"
  shows "fst (tryPlay w f s) = Inr ()"
proof -
  from tryClickSelectors_attached [OF assms] obtain b where
    "fst (tryClickSelectors w f playSelectors s) = Inr b" by blast
  then show ?thesis by (simp add: tryPlay_def bnd_fst_Inr run_def)
qed

lemma interact_frames_attached:
  assumes "\<forall>k. \<not> detached (w k)"
  shows "fst (interact_frames w fs s) = Inr ()"
proof (induction fs arbitrary: s)
  case Nil
  then show ?case by (simp add: ret_def)
next
  case (Cons f fs)
  then show ?case
    by (simp add: bnd_fst_Inr tryCloseOverlays_attached [OF assms] tryPlay_attached [OF assms])
qed

lemma tryInteractAllFrames_attached:
  "\<forall>k. \<not> detached (w k) \<Longrightarrow> fst (tryInteractAllFrames w s) = Inr ()"
  by (simp add: tryInteractAllFrames_def interact_frames_attached)

text \<open>
  What the poll does, exactly: it is \<open>delay(250)\<close> repeated \<open>n\<close> times for some \<open>n\<close> of at
  most 20; before each of these waits the manifest set was empty and fewer than 5000 ms
  had passed since the poll began; and it ends with a manifest in the set or with at
  least 5000 ms passed.
\<close>

lemma poll_iterates:
  "start + 5000 \<le> now s + 250 * k \<Longrightarrow>
   \<exists>n \<le> k. poll w start s = ((delay w 250) ^^ n) s \<and>
     (\<forall>j < n. m3u8Urls (((delay w 250) ^^ j) s) = [] \<and>
              now (((delay w 250) ^^ j) s) - start < 5000) \<and>
     (m3u8Urls (poll w start s) \<noteq> [] \<or> \<not> now (poll w start s) - start < 5000)"
proof (induction k arbitrary: s)
  case 0
  then have stop: "\<not> now s - start < 5000" by simp
  then have "poll w start s = s" by (simp add: poll_stop)
  with stop have "(0::nat) \<le> 0 \<and> poll w start s = ((delay w 250) ^^ 0) s \<and>
     (\<forall>j < 0. m3u8Urls (((delay w 250) ^^ j) s) = [] \<and>
              now (((delay w 250) ^^ j) s) - start < 5000) \<and>
     (m3u8Urls (poll w start s) \<noteq> [] \<or> \<not> now (poll w start s) - start < 5000)"
    by simp
  then show ?case by blast
next
  case (Suc k)
  show ?case
  proof (cases "now s - start < 5000 \<and> m3u8Urls s = []")
    case True
    let ?s' = "delay w 250 s"
    from True have eq: "poll w start s = poll w start ?s'" by (simp add: poll_continue)
    have n: "now s + 250 \<le> now ?s'" by (simp add: delay_def)
    from Suc.prems n have "start + 5000 \<le> now ?s' + 250 * k" by simp
    from Suc.IH [OF this] obtain n where n: "n \<le> k"
      "poll w start ?s' = ((delay w 250) ^^ n) ?s'"
      "\<forall>j < n. m3u8Urls (((delay w 250) ^^ j) ?s') = [] \<and>
               now (((delay w 250) ^^ j) ?s') - start < 5000"
      "m3u8Urls (poll w start ?s') \<noteq> [] \<or> \<not> now (poll w start ?s') - start < 5000"
      by blast
    have sw: "((delay w 250) ^^ j) ?s' = ((delay w 250) ^^ Suc j) s" for j
      by (simp add: funpow_swap1)
    have before: "m3u8Urls (((delay w 250) ^^ j) s) = [] \<and>
                  now (((delay w 250) ^^ j) s) - start < 5000" if "j < Suc n" for j
    proof (cases j)
      case 0
      with True show ?thesis by simp
    next
      case (Suc i)
      with that have "i < n" by simp
      with n(3) have "m3u8Urls (((delay w 250) ^^ i) ?s') = [] \<and>
                      now (((delay w 250) ^^ i) ?s') - start < 5000" by blast
      with Suc show ?thesis by (simp only: sw)
    qed
    from n(2) eq have "poll w start s = ((delay w 250) ^^ Suc n) s" by (simp only: sw)
    with n(1) n(4) eq before
    have "Suc n \<le> Suc k \<and> poll w start s = ((delay w 250) ^^ Suc n) s \<and>
     (\<forall>j < Suc n. m3u8Urls (((delay w 250) ^^ j) s) = [] \<and>
              now (((delay w 250) ^^ j) s) - start < 5000) \<and>
     (m3u8Urls (poll w start s) \<noteq> [] \<or> \<not> now (poll w start s) - start < 5000)"
      by simp
    then show ?thesis by blast
  next
    case False
    then have "poll w start s = s" by (simp add: poll_stop)
    with False have "(0::nat) \<le> Suc k \<and> poll w start s = ((delay w 250) ^^ 0) s \<and>
     (\<forall>j < 0. m3u8Urls (((delay w 250) ^^ j) s) = [] \<and>
              now (((delay w 250) ^^ j) s) - start < 5000) \<and>
     (m3u8Urls (poll w start s) \<noteq> [] \<or> \<not> now (poll w start s) - start < 5000)"
      by auto
    then show ?thesis by blast
  qed
qed

lemma poll_from_now_iterates:
  "\<exists>n \<le> 20. poll_from_now w s = ((delay w 250) ^^ n) s \<and>
     (\<forall>j < n. m3u8Urls (((delay w 250) ^^ j) s) = [] \<and>
              now (((delay w 250) ^^ j) s) < now s + 5000) \<and>
     (m3u8Urls (poll_from_now w s) \<noteq> [] \<or> now s + 5000 \<le> now (poll_from_now w s))"
proof -
  have "now s + 5000 \<le> now s + 250 * 20" by simp
  from poll_iterates [OF this, of w] obtain n where n: "n \<le> 20"
    "poll w (now s) s = ((delay w 250) ^^ n) s"
    "\<forall>j < n. m3u8Urls (((delay w 250) ^^ j) s) = [] \<and>
             now (((delay w 250) ^^ j) s) - now s < 5000"
    "m3u8Urls (poll w (now s) s) \<noteq> [] \<or> \<not> now (poll w (now s) s) - now s < 5000"
    by blast
  from n(3) have "\<forall>j < n. m3u8Urls (((delay w 250) ^^ j) s) = [] \<and>
             now (((delay w 250) ^^ j) s) < now s + 5000"
    by (auto simp: less_diff_conv)
  moreover from n(4) have "m3u8Urls (poll w (now s) s) \<noteq> [] \<or> now s + 5000 \<le> now (poll w (now s) s)"
    by auto
  ultimately have "n \<le> 20 \<and> poll_from_now w s = ((delay w 250) ^^ n) s \<and>
     (\<forall>j < n. m3u8Urls (((delay w 250) ^^ j) s) = [] \<and>
              now (((delay w 250) ^^ j) s) < now s + 5000) \<and>
     (m3u8Urls (poll_from_now w s) \<noteq> [] \<or> now s + 5000 \<le> now (poll_from_now w s))"
    using n(1,2) by (simp add: poll_from_now_def)
  then show ?thesis by blast
qed

text \<open>
  As long as no frame is detached when a selector is looked up in it, a page without
  manifest traffic takes \<open>scrapeProvider\<close> through the whole escalation, passive wait,
  interaction round, wait, interaction round and poll, and the call returns the empty
  list after closing the browser.
\<close>

lemma full_escalation_while_frames_stay_attached:
  assumes "open_page w targetUrl initial = (Inr x, s1)"
      and "\<forall>k. \<forall>ev \<in> set (traffic (w k)). \<forall>u \<in> set (event_urls ev). \<not> isM3U8 u"
      and "\<forall>k. \<not> detached (w k)"
  shows "scrapeProvider w targetUrl =
           (Inr [], close_browser w (poll_from_now w (snd (tryInteractAllFrames w
                       (delay w CLICK_WAIT_MS (snd (tryInteractAllFrames w s1)))))))"
proof -
  from assms(2) have nowire: "{u \<in> wire w. isM3U8 u} = {}"
    by (auto simp: wire_def)
  have stays: "m3u8Urls s' = []" if "evolves w {} (\<lambda>a. True) initial s'" for s'
    using that nowire by (simp add: evolves_def initial_def)
  have i: "evolves w {} (\<lambda>a. True) s (snd (tryInteractAllFrames w s))" for s
    by (simp add: evolves_tryInteractAllFrames)
  have d: "evolves w {} (\<lambda>a. True) s (delay w ms s)" for s ms
    by (simp add: evolves_delay)
  have p: "evolves w {} (\<lambda>a. True) s (poll_from_now w s)" for s
    by (simp add: evolves_poll_from_now)
  define s1' where "s1' = snd (tryInteractAllFrames w s1)"
  define s2 where "s2 = delay w CLICK_WAIT_MS s1'"
  define s2' where "s2' = snd (tryInteractAllFrames w s2)"
  define s3 where "s3 = poll_from_now w s2'"
  have a: "tryInteractAllFrames w s1 = (Inr (), s1')"
    using tryInteractAllFrames_attached [OF assms(3), of s1] by (simp add: prod_eq_iff s1'_def)
  have b: "tryInteractAllFrames w s2 = (Inr (), s2')"
    using tryInteractAllFrames_attached [OF assms(3), of s2] by (simp add: prod_eq_iff s2'_def)
  have "evolves w {} (\<lambda>a. True) initial (snd (open_page w targetUrl initial))"
    by (simp add: evolves_open_page)
  with assms(1) have 1: "evolves w {} (\<lambda>a. True) initial s1" by simp
  have 2: "evolves w {} (\<lambda>a. True) initial s2"
    unfolding s2_def s1'_def by (rule evolves_trans [OF 1 evolves_trans [OF i d]])
  have 3: "evolves w {} (\<lambda>a. True) initial s3"
    unfolding s3_def s2'_def by (rule evolves_trans [OF 2 evolves_trans [OF i p]])
  from stays [OF 1] stays [OF 2] stays [OF 3]
  have "scrapeProvider_try w targetUrl initial = (Inr [], s3)"
    by (simp add: scrapeProvider_try_unfold assms(1) a b s2_def [symmetric] s3_def [symmetric])
  then have "scrapeProvider w targetUrl = (Inr [], close_browser w s3)"
    by (simp add: scrapeProvider_eq)
  then show ?thesis by (simp only: s3_def s2'_def s2_def s1'_def)
qed

lemma busy_page_urls:
  "\<not> isM3U8 ''http://x/''" "\<not> isM3U8 ''http://x/logo.png''" "\<not> isM3U8 ''http://x/en.vtt''"
  "\<not> isSubtitle ''http://x/''" "\<not> isSubtitle ''http://x/logo.png''" "isSubtitle ''http://x/en.vtt''"
proof -
  show "\<not> isM3U8 ''http://x/''" by code_simp
  show "\<not> isM3U8 ''http://x/logo.png''" by code_simp
  show "\<not> isM3U8 ''http://x/en.vtt''" by code_simp
  show "\<not> isSubtitle ''http://x/''" by code_simp
  show "\<not> isSubtitle ''http://x/logo.png''" by code_simp
  show "isSubtitle ''http://x/en.vtt''" by code_simp
qed

lemma busy_page_returns_nothing:
  "fst (scrapeProvider busy_page ''http://x/'') = Inr []"
proof -
  let ?s1 = "snd (open_page busy_page ''http://x/'' initial)"
  have "fst (open_page busy_page ''http://x/'' initial) = Inr ()"
    by (rule open_page_succeeds) (simp add: busy_page_def idle_def)
  then have h1: "open_page busy_page ''http://x/'' initial = (Inr (), ?s1)"
    by (simp add: prod_eq_iff)
  have h2: "\<forall>k. \<forall>ev \<in> set (traffic (busy_page k)). \<forall>u \<in> set (event_urls ev). \<not> isM3U8 u"
    by (simp add: busy_page_def idle_def busy_page_urls)
  have h3: "\<forall>k. \<not> detached (busy_page k)"
    by (simp add: busy_page_def idle_def)
  from full_escalation_while_frames_stay_attached [OF h1 h2 h3] show ?thesis by simp
qed

text \<open>
  Claim C5 fails on the code. The page of \<open>frame_detached\<close> never requests a manifest, and
  launch, page set-up, navigation and passive wait succeed. Its nested frame is removed
  while the first interaction round deals with the main frame; the lookup \<open>frame.$(sel)\<close>
  in the removed frame throws before its \<open>.catch\<close> is reached, the error leaves the
  interaction round, and \<open>scrapeProvider\<close> throws it instead of returning the empty list.
\<close>

theorem detached_frame_aborts_call:
  "fst (open_page frame_detached ''http://x/'' initial) = Inr () \<and>
   {u \<in> wire frame_detached. isM3U8 u} = {} \<and>
   fst (tryInteractAllFrames frame_detached (snd (open_page frame_detached ''http://x/'' initial))) =
     Inl ''Attempted to use detached Frame'' \<and>
   fst (scrapeProvider frame_detached ''http://x/'') = Inl ''Attempted to use detached Frame''"
proof -
  define s1 where "s1 = snd (open_page frame_detached ''http://x/'' initial)"
  define s1' where "s1' = snd (tryInteractAllFrames frame_detached s1)"
  have 1: "fst (open_page frame_detached ''http://x/'' initial) = Inr ()"
    by (rule open_page_succeeds) (simp add: frame_detached_def idle_def)
  then have o: "open_page frame_detached ''http://x/'' initial = (Inr (), s1)"
    by (simp add: prod_eq_iff s1_def)
  have 2: "{u \<in> wire frame_detached. isM3U8 u} = {}"
    by (auto simp: wire_def frame_detached_def idle_def busy_page_urls split: if_splits)
  have "evolves frame_detached {} (\<lambda>a. True) initial (snd (open_page frame_detached ''http://x/'' initial))"
    by (simp add: evolves_open_page)
  then have "set (m3u8Urls s1) \<subseteq> set (m3u8Urls initial) \<union> {u \<in> wire frame_detached. isM3U8 u}"
    by (simp add: evolves_def s1_def)
  then have "set (m3u8Urls s1) \<subseteq> {}" unfolding 2 by (simp add: initial_def)
  then have m: "m3u8Urls s1 = []" by simp
  have k: "tick s1 = 9"
    using open_page_ok(1) [OF o] by (simp add: initial_def)
  have w: "child_docs (frame_detached 9) = [[]]"
    "\<not> detached (frame_detached 9)" "found (frame_detached 9)" "failure (frame_detached 9) = None"
    "failure (frame_detached 10) = None"
    "\<not> detached (frame_detached 11)" "found (frame_detached 11)" "failure (frame_detached 11) = None"
    "failure (frame_detached 12) = None"
    "\<not> detached (frame_detached 13)"
    "detached (frame_detached 14)"
    by (simp_all add: frame_detached_def idle_def)
  have 3: "fst (tryInteractAllFrames frame_detached s1) = Inl ''Attempted to use detached Frame''"
    using k w
    by (simp add: tryInteractAllFrames_def frames_of_def tryCloseOverlays_def tryPlay_def
          closeSelectors_def playSelectors_def tryClickSelectors_Cons tryAutoplay_eq
          bnd_def run_def ret_def detached_frame_def eval_nat_numeral split_beta
          del: tryClickSelectors.simps)
  then have i: "tryInteractAllFrames frame_detached s1 =
      (Inl ''Attempted to use detached Frame'', s1')"
    by (simp add: prod_eq_iff s1'_def)
  from o m i have "fst (scrapeProvider_try frame_detached ''http://x/'' initial) =
      Inl ''Attempted to use detached Frame''"
    by (simp add: scrapeProvider_try_unfold)
  then have 4: "fst (scrapeProvider frame_detached ''http://x/'') = Inl ''Attempted to use detached Frame''"
    by (simp add: scrapeProvider_eq)
  from 1 2 3 4 show ?thesis by (simp add: s1_def)
qed

text \<open>
  Claim C6. Each entry point returns what its \<open>try\<close> block returned or threw, whatever
  the browser answers to \<open>close()\<close>. Once the browser has been launched, \<open>close()\<close> is called
  after everything the \<open>try\<close> block did, on every path out of it, and only the
  handlers act after that call. (When the launch itself fails there is no browser:
  \<open>browser\<close> is still null and \<open>browser?.close()\<close> calls nothing.)
\<close>

theorem browser_closed_on_every_path:
  "fst (scrapeProvider w targetUrl) = fst (scrapeProvider_try w targetUrl initial) \<and>
   fst (scrapeProviderWithSubtitles w targetUrl) =
     fst (scrapeProviderWithSubtitles_try w targetUrl initial) \<and>
   (failure (w 0) = None \<longrightarrow>
      (\<exists>post. trace (snd (scrapeProvider w targetUrl)) =
                trace (snd (scrapeProvider_try w targetUrl initial)) @ CloseBrowser # post \<and>
              (\<forall>a \<in> set post. is_collector a)) \<and>
      (\<exists>post. trace (snd (scrapeProviderWithSubtitles w targetUrl)) =
                trace (snd (scrapeProviderWithSubtitles_try w targetUrl initial)) @ CloseBrowser # post \<and>
              (\<forall>a \<in> set post. is_collector a))) \<and>
   (\<forall>s. browser s \<longrightarrow> close_browser w s = snd (await w CloseBrowser 0 s))"
proof -
  have launched: "browser (snd (open_page w targetUrl initial))" if "failure (w 0) = None"
    using that open_page_launched [of w initial targetUrl] by (simp add: initial_def)
  have b1: "browser (snd (scrapeProvider_try w targetUrl initial))" if "failure (w 0) = None"
    using launched [OF that] evolves_from_open_page [of w "{}" targetUrl initial]
    by (simp add: evolves_def)
  have b2: "browser (snd (scrapeProviderWithSubtitles_try w targetUrl initial))"
    if "failure (w 0) = None"
    using launched [OF that] evolves_from_open_page_subs [of w targetUrl initial]
    by (simp add: evolves_def)
  show ?thesis
    using trace_close_browser [OF b1] trace_close_browser [OF b2]
    by (simp add: scrapeProvider_eq scrapeProviderWithSubtitles_eq close_browser_eq)
qed

theorem browser_closed_on_every_path_witness:
  "failure (navigation_timeout 0) = None \<and>
   fst (scrapeProvider navigation_timeout ''http://x/'') =
     Inl ''Navigation timeout of 30000 ms exceeded'' \<and>
   CloseBrowser \<in> set (trace (snd (scrapeProvider navigation_timeout ''http://x/'')))"
proof -
  have h: "failure (navigation_timeout 0) = None"
    by (simp add: navigation_timeout_def idle_def)
  have "fst (open_page navigation_timeout ''http://x/'' initial) =
          Inl ''Navigation timeout of 30000 ms exceeded''"
    by (simp add: run_defs navigation_timeout_def)
  then have e: "fst (scrapeProvider_try navigation_timeout ''http://x/'' initial) =
          Inl ''Navigation timeout of 30000 ms exceeded''"
    by (simp add: scrapeProvider_try_unfold split_beta split: sum.splits)
  from browser_closed_on_every_path [of navigation_timeout "''http://x/''"] h
  have r: "fst (scrapeProvider navigation_timeout ''http://x/'') =
             fst (scrapeProvider_try navigation_timeout ''http://x/'' initial)"
    and "\<exists>post. trace (snd (scrapeProvider navigation_timeout ''http://x/'')) =
            trace (snd (scrapeProvider_try navigation_timeout ''http://x/'' initial)) @ CloseBrowser # post \<and>
            (\<forall>a \<in> set post. is_collector a)"
    by blast+
  then have "CloseBrowser \<in> set (trace (snd (scrapeProvider navigation_timeout ''http://x/'')))"
    by auto
  with h e r show ?thesis by simp
qed

text \<open>
  Claim C7. Every operation of a call leaves both sets with the entries they had, at the
  positions they had: the request handler, the response handler, the delivery of any
  events, the merge of the subtitle fallback, the waits, the interaction rounds, the poll,
  the closing of the browser, and so the \<open>try\<close> blocks of both entry points from any
  session. The sizes of the sets never decrease and no entry is removed or rewritten.
\<close>

theorem sets_append_only:
  "grows s (on_request u ty rejection s) \<and>
   grows s (on_response res_url req_url s) \<and>
   grows s (deliver evs s) \<and>
   grows s (merge_domSubs domSubs s) \<and>
   grows s (delay w ms s) \<and>
   grows s (snd (tryInteractAllFrames w s)) \<and>
   grows s (poll_from_now w s) \<and>
   grows s (close_browser w s) \<and>
   grows s (snd (open_page w targetUrl s)) \<and>
   grows s (snd (scrapeProvider_try w targetUrl s)) \<and>
   grows s (snd (scrapeProviderWithSubtitles_try w targetUrl s)) \<and>
   (grows s s' \<longrightarrow>
      length (m3u8Urls s) \<le> length (m3u8Urls s') \<and> length (subUrls s) \<le> length (subUrls s') \<and>
      (\<forall>i < length (m3u8Urls s). m3u8Urls s' ! i = m3u8Urls s ! i) \<and>
      (\<forall>i < length (subUrls s). subUrls s' ! i = subUrls s ! i))"
proof -
  have 1: "grows s (on_request u ty rejection s)"
    using grows_handle [of s "Request u ty rejection"] by simp
  have 2: "grows s (on_response res_url req_url s)"
    using grows_handle [of s "Response res_url req_url"] by simp
  have 3: "grows s (deliver evs s)" by (rule grows_deliver)
  have 4: "grows s (merge_domSubs domSubs s)"
    using evolves_merge_domSubs [of domSubs UNIV w "\<lambda>a. True" s] by (simp add: evolves_def)
  have 5: "grows s (delay w ms s)"
    using evolves_delay [of "\<lambda>a. True" ms w UNIV s] by (simp add: evolves_def)
  have 6: "grows s (snd (tryInteractAllFrames w s))"
    using evolves_tryInteractAllFrames [of "\<lambda>a. True" w UNIV s] by (simp add: evolves_def)
  have 7: "grows s (poll_from_now w s)"
    using evolves_poll_from_now [of "\<lambda>a. True" w UNIV s] by (simp add: evolves_def)
  have 8: "grows s (close_browser w s)"
    using evolves_close_browser [of "\<lambda>a. True" w UNIV s] by (simp add: evolves_def)
  have 9: "grows s (snd (open_page w targetUrl s))"
    using evolves_open_page [of "\<lambda>a. True" w UNIV s targetUrl] by (simp add: evolves_def)
  have 10: "grows s (snd (scrapeProvider_try w targetUrl s))"
    using evolves_scrapeProvider_try [of w UNIV s targetUrl] by (simp add: evolves_def)
  have 11: "grows s (snd (scrapeProviderWithSubtitles_try w targetUrl s))"
    using evolves_scrapeProviderWithSubtitles_try [of w s targetUrl] by (simp add: evolves_def)
  have 12: "length (m3u8Urls s) \<le> length (m3u8Urls s') \<and> length (subUrls s) \<le> length (subUrls s') \<and>
      (\<forall>i < length (m3u8Urls s). m3u8Urls s' ! i = m3u8Urls s ! i) \<and>
      (\<forall>i < length (subUrls s). subUrls s' ! i = subUrls s ! i)" if "grows s s'"
    using that by (auto simp: grows_def prefix_def nth_append)
  from 1 2 3 4 5 6 7 8 9 10 11 12 show ?thesis by blast
qed

theorem sets_append_only_witness:
  "grows (initial\<lparr>m3u8Urls := [''http://x/a.m3u8'']\<rparr>)
         (on_request ''http://x/v.m3u8'' ''media'' None (initial\<lparr>m3u8Urls := [''http://x/a.m3u8'']\<rparr>)) \<and>
   m3u8Urls (on_request ''http://x/v.m3u8'' ''media'' None (initial\<lparr>m3u8Urls := [''http://x/a.m3u8'']\<rparr>)) ! 0
     = ''http://x/a.m3u8''"
proof -
  let ?s = "initial\<lparr>m3u8Urls := [''http://x/a.m3u8'']\<rparr>"
  let ?s' = "on_request ''http://x/v.m3u8'' ''media'' None ?s"
  from sets_append_only [where s = ?s and s' = ?s' and u = "''http://x/v.m3u8''"
      and ty = "''media''" and rejection = None]
  have g: "grows ?s ?s'"
    and "grows ?s ?s' \<longrightarrow> (\<forall>i < length (m3u8Urls ?s). m3u8Urls ?s' ! i = m3u8Urls ?s ! i)"
    by blast+
  then have "\<forall>i < length (m3u8Urls ?s). m3u8Urls ?s' ! i = m3u8Urls ?s ! i" by blast
  then have "m3u8Urls ?s' ! 0 = m3u8Urls ?s ! 0" by simp
  with g show ?thesis by simp
qed

text \<open>
  Claim C10. The subtitle fallback evaluates its script in the main frame's document only:
  what it returns is a function of that document. Every subtitle URL that
  \<open>scrapeProviderWithSubtitles\<close> returns was either seen on the wire and accepted by
  \<open>isSubtitle\<close>, or found by the script in the main frame's document at the tenth
  suspension of the call (the evaluation). The documents of nested frames have no part in
  it.
\<close>

theorem dom_fallback_reads_main_frame_only:
  "fst (evaluate_domSubs w s) =
     (case failure (w (tick s)) of
        None \<Rightarrow> Inr (domSubs_script (main_doc (w (tick s))))
      | Some e \<Rightarrow> Inl e) \<and>
   (scrapeProviderWithSubtitles w targetUrl = (Inr res, s') \<longrightarrow>
      set (map url (subtitles res))
        \<subseteq> {v \<in> wire w. isSubtitle v} \<union> set (domSubs_script (main_doc (w 9))))"
proof -
  have "set (map url (subtitles res))
        \<subseteq> {v \<in> wire w. isSubtitle v} \<union> set (domSubs_script (main_doc (w 9)))"
    if run: "scrapeProviderWithSubtitles w targetUrl = (Inr res, s')"
  proof -
    let ?D = "set (domSubs_script (main_doc (w 9)))"
    obtain r s1 where o: "open_page w targetUrl initial = (r, s1)"
      by (cases "open_page w targetUrl initial")
    from run have t: "fst (scrapeProviderWithSubtitles_try w targetUrl initial) = Inr res"
      by (simp add: scrapeProviderWithSubtitles_eq)
    with o obtain x where r: "r = Inr x"
      by (cases r) (simp_all add: scrapeProviderWithSubtitles_try_unfold)
    from o r have k: "tick s1 = 9"
      using open_page_ok(1) [of w targetUrl initial x s1] by (simp add: initial_def)
    let ?s2 = "snd (await w EvaluateDomSubs 0 s1)"
    let ?s3 = "merge_domSubs (domSubs_script (main_doc (w 9))) ?s2"
    obtain q s4 where ip: "interact_and_poll w ?s3 = (q, s4)"
      by (cases "interact_and_poll w ?s3")
    from t o r k have ok: "failure (w 9) = None"
      by (cases "failure (w 9)") (simp_all add: scrapeProviderWithSubtitles_try_unfold)
    with t o r k ip have res: "res = \<lparr>urls = m3u8Urls s4,
        subtitles = map (\<lambda>u. \<lparr>url = u, label = None, lang = None\<rparr>) (subUrls s4)\<rparr>"
      by (cases q) (simp_all add: scrapeProviderWithSubtitles_try_unfold)
    have "evolves w ?D (\<lambda>a. True) initial (snd (open_page w targetUrl initial))"
      by (simp add: evolves_open_page)
    with o have 1: "evolves w ?D (\<lambda>a. True) initial s1" by simp
    have 2: "evolves w ?D (\<lambda>a. True) s1 ?s2" by (simp add: evolves_await)
    have 3: "evolves w ?D (\<lambda>a. True) ?s2 ?s3" by (simp add: evolves_merge_domSubs)
    have 4: "evolves w ?D (\<lambda>a. True) ?s3 s4"
      using evolves_interact_and_poll [of w ?D ?s3] ip by simp
    from evolves_trans [OF evolves_trans [OF evolves_trans [OF 1 2] 3] 4]
    have "set (subUrls s4) \<subseteq> set (subUrls initial) \<union> {u \<in> wire w. isSubtitle u} \<union> ?D"
      by (simp add: evolves_def)
    then have "set (subUrls s4) \<subseteq> {u \<in> wire w. isSubtitle u} \<union> ?D"
      by (simp add: initial_def)
    moreover from res have "map url (subtitles res) = subUrls s4"
      by (simp add: o_def)
    ultimately show ?thesis by simp
  qed
  then show ?thesis by (simp add: evaluate_domSubs_fst)
qed

lemma track_script: "domSubs_script [track u] = (if u = [] then [] else [u])"
  by (simp add: domSubs_script_def track_def getAttribute_def add_if_nonempty_def set_add_def)

theorem dom_fallback_reads_main_frame_only_witness:
  "fst (scrapeProviderWithSubtitles iframe_track ''http://x/'') =
     Inr \<lparr>urls = [''http://x/v.m3u8''],
          subtitles = [\<lparr>url = ''http://x/main.vtt'', label = None, lang = None\<rparr>]\<rparr> \<and>
   child_docs (iframe_track 9) = [[track ''http://x/frame.vtt'']] \<and>
   domSubs_script [track ''http://x/frame.vtt''] = [''http://x/frame.vtt'']"
proof -
  let ?res = "\<lparr>urls = [''http://x/v.m3u8''],
          subtitles = [\<lparr>url = ''http://x/main.vtt'', label = None, lang = None\<rparr>]\<rparr>"
  have o: "fst (open_page iframe_track ''http://x/'' initial) = Inr ()"
    by (simp add: run_defs iframe_track_def)
  have m: "m3u8Urls (snd (open_page iframe_track ''http://x/'' initial)) = [''http://x/v.m3u8'']"
    by (simp add: run_defs iframe_track_def v_is_manifest v_is_no_subtitle set_add_def)
  have s: "subUrls (snd (open_page iframe_track ''http://x/'' initial)) = []"
    by (simp add: run_defs iframe_track_def v_is_manifest v_is_no_subtitle set_add_def)
  have k: "tick (snd (open_page iframe_track ''http://x/'' initial)) = 9"
    by (simp add: run_defs iframe_track_def)
  have c: "collecting (snd (open_page iframe_track ''http://x/'' initial))"
    by (simp add: run_defs iframe_track_def)
  have e: "fst (scrapeProviderWithSubtitles iframe_track ''http://x/'') = Inr ?res"
    using o m s k c
    by (simp add: scrapeProviderWithSubtitles_eq scrapeProviderWithSubtitles_try_unfold
          interact_and_poll_def bnd_def ret_def merge_domSubs_def track_script await_def
          deliver_def Let_def
          iframe_track_def idle_def set_add_def split_beta split: sum.splits)
  then have "scrapeProviderWithSubtitles iframe_track ''http://x/'' =
      (Inr ?res, snd (scrapeProviderWithSubtitles iframe_track ''http://x/''))"
    by (simp add: prod_eq_iff)
  with dom_fallback_reads_main_frame_only [of iframe_track _ "''http://x/''" ?res]
  have "set (map url (subtitles ?res))
        \<subseteq> {v \<in> wire iframe_track. isSubtitle v} \<union> set (domSubs_script (main_doc (iframe_track 9)))"
    by blast
  with e show ?thesis
    by (simp add: iframe_track_def idle_def track_script)
qed

text \<open>
  Claim C4 fails on the code. On a page that navigates away while the subtitle script is
  evaluated, \<open>page.evaluate\<close> rejects and \<open>scrapeProviderWithSubtitles\<close> throws that error:
  the manifest URL it had already collected is lost, and neither interaction nor poll
  takes place.
\<close>

theorem dom_fallback_failure_propagates:
  "fst (scrapeProviderWithSubtitles context_destroyed ''http://x/'') =
     Inl ''Execution context was destroyed'' \<and>
   m3u8Urls (snd (scrapeProviderWithSubtitles context_destroyed ''http://x/'')) = [''http://x/v.m3u8''] \<and>
   Frames \<notin> set (trace (snd (scrapeProviderWithSubtitles context_destroyed ''http://x/'')))"
  by (simp add: scrapeProviderWithSubtitles_def scrapeProviderWithSubtitles_try_def
        evaluate_domSubs_def run_defs context_destroyed_def v_is_manifest v_is_no_subtitle
        set_add_def launchArgs_def PASSIVE_WAIT_MS_def userAgent_def)

end
